theory Spec2Isabelle
  imports Main "HOL-Library.Multiset" "HOL-Library.List_Lexorder"
begin

section \<open>Data model of binSearchtree\_AVL.py\<close>

text \<open>
  A Python object has an identity and a content: \<open>Obj i c\<close> is the object
  with identity tag \<open>i\<close> and content \<open>c\<close>. The tree compares contents
  (\<open><\<close>, \<open>>\<close>) and, in one place (\<open>sort_key is value\<close> in \<open>insert\<close>),
  asks whether two references are the same object, which is equality of
  the two terms. The variable \<open>skey\<close> stands for the source's \<open>sort_key\<close>.

  Three places of the source ask what kind of object they hold:
  \<open>isinstance(node[_KEY], list)\<close> in \<open>insert\<close>, \<open>isinstance(items[i], list)\<close> in
  \<open>flatten\<close>, and the operator \<open>%\<close> in \<open>_find\<close>, which takes a tuple on its
  right as the sequence of the values to format. So a tuple is \<open>TupleObj i c xs\<close>
  and a list is \<open>ListObj i c xs\<close>, with the items \<open>xs\<close>; \<open>Obj i c\<close> is an object
  of any other type. The content \<open>c\<close> of a tuple or list is what \<open><\<close> and \<open>>\<close>
  make of it.
\<close>

datatype 'a pyobj =
    Obj (oid: nat) (oval: 'a)
  | TupleObj (oid: nat) (oval: 'a) (elems: "'a pyobj list")
  | ListObj (oid: nat) (oval: 'a) (elems: "'a pyobj list")

text \<open>\<open>isinstance(x, list)\<close>\<close>

fun isinstance_list :: "'a pyobj \<Rightarrow> bool" where
  "isinstance_list (ListObj i c xs) = True"
| "isinstance_list x = False"

text \<open>
  A node is a Python list: \<open>[]\<close> (absent), \<open>[lo, hi, value]\<close> (the key is the
  value itself) or \<open>[lo, hi, value, sort_key]\<close>. The slots from index 2 on are
  what \<open>node[2:]\<close> denotes.
\<close>

datatype 'a slots = Slot3 "'a pyobj" | Slot4 "'a pyobj" "'a pyobj"

datatype 'a node = Empty | Node "'a node" "'a node" "'a slots"

text \<open>\<open>node[_VALUE]\<close>, that is \<open>node[2]\<close>, and \<open>node[_KEY]\<close>, that is \<open>node[-1]\<close>.\<close>

fun slot_value :: "'a slots \<Rightarrow> 'a pyobj" where
  "slot_value (Slot3 v) = v"
| "slot_value (Slot4 v k) = v"

fun slot_key :: "'a slots \<Rightarrow> 'a pyobj" where
  "slot_key (Slot3 v) = v"
| "slot_key (Slot4 v k) = k"

text \<open>
  The exceptions. \<open>KeyError x\<close> is the \<open>KeyError\<close> of \<open>_find\<close> whose message
  names the object \<open>x\<close>; \<open>OSError\<close> stands for the exception of an \<open>open\<close> for
  writing that fails.
\<close>

datatype 'a error =
    KeyError "'a pyobj"
  | TypeError
  | IndexError
  | FileNotFoundError string
  | OSError string

record 'a bst =
  root :: "'a node"
  len :: int
  bal :: bool

text \<open>\<open>__init__\<close>\<close>

definition init :: "bool \<Rightarrow> 'a bst" where
  "init balance = \<lparr>root = Empty, len = 0, bal = balance\<rparr>"

section \<open>flatten\<close>

text \<open>
  The nested lists \<open>flatten\<close> works on: a node seen as the list it is. A value
  or key that is a list is one more nested list there.
\<close>

datatype 'a pyval = Atom "'a pyobj" | PyList "'a pyval list"

fun item :: "'a pyobj \<Rightarrow> 'a pyval" where
  "item (Obj i c) = Atom (Obj i c)"
| "item (TupleObj i c xs) = Atom (TupleObj i c xs)"
| "item (ListObj i c xs) = PyList (map item xs)"

fun slot_items :: "'a slots \<Rightarrow> 'a pyval list" where
  "slot_items (Slot3 v) = [item v]"
| "slot_items (Slot4 v k) = [item v, item k]"

fun as_list :: "'a node \<Rightarrow> 'a pyval list" where
  "as_list Empty = []"
| "as_list (Node l h s) = PyList (as_list l) # PyList (as_list h) # slot_items s"

fun weight :: "'a pyval \<Rightarrow> nat" where
  "weight (Atom a) = 1"
| "weight (PyList xs) = Suc (sum_list (map weight xs))"

text \<open>
  The \<open>for\<close> loop over \<open>enumerate(items)\<close> with its inner \<open>while\<close>: at index
  \<open>i\<close> a list is spliced in place (\<open>items[i:i+1] = items[i]\<close>) and looked at
  again, anything else is stepped over; the loop ends when \<open>i\<close> reaches the
  current length.
\<close>

function flatten_loop :: "nat \<Rightarrow> 'a pyval list \<Rightarrow> 'a pyval list" where
  "flatten_loop i items =
     (if i < length items then
        (case items ! i of
           PyList xs \<Rightarrow> flatten_loop i (take i items @ xs @ drop (Suc i) items)
         | Atom a \<Rightarrow> flatten_loop (Suc i) items)
      else items)"
  by pat_completeness auto
termination
proof (relation "measure (\<lambda>(i, items). sum_list (map weight (drop i items)))", goal_cases)
  case 1
  show ?case by simp
next
  case (2 i items a)
  then have "drop i items = Atom a # drop (Suc i) items"
    using Cons_nth_drop_Suc [of i items] by simp
  then show ?case by simp
next
  case (3 i items xs)
  then have d: "drop i items = PyList xs # drop (Suc i) items"
    using Cons_nth_drop_Suc [of i items] by simp
  have "drop i (take i items @ xs @ drop (Suc i) items) = xs @ drop (Suc i) items"
    using 3(1) by simp
  with d show ?case by simp
qed

declare flatten_loop.simps [simp del]

definition flatten :: "'a pyval list \<Rightarrow> 'a pyval list" where
  "flatten mylist = flatten_loop 0 mylist"

section \<open>Node store\<close>

text \<open>
  The last line of \<open>_find\<close>, \<open>raise KeyError("Key %r not found in BST" % sort_key)\<close>.
  The format has one place. A key that is a tuple is taken by \<open>%\<close> as the
  sequence of the values to format: a tuple of one item gives the message that
  names that item, and a tuple of any other length makes \<open>%\<close> raise \<open>TypeError\<close>
  before there is a \<open>KeyError\<close>. A key of any other type is named by the
  message.
\<close>

fun not_found :: "'a pyobj \<Rightarrow> 'a error" where
  "not_found (TupleObj i c [x]) = KeyError x"
| "not_found (TupleObj i c xs) = TypeError"
| "not_found skey = KeyError skey"

text \<open>
  \<open>_find\<close>: the walk from the root. The result is the node reached, or the
  exception raised on an absent node.
\<close>

fun find_node :: "'a::linorder pyobj \<Rightarrow> 'a node \<Rightarrow> 'a error + 'a node" where
  "find_node skey Empty = Inl (not_found skey)"
| "find_node skey (Node l h s) =
     (let node_key = slot_key s in
      if oval skey < oval node_key then find_node skey l
      else if oval skey > oval node_key then find_node skey h
      else Inr (Node l h s))"

text \<open>
  The methods that write do \<open>s = self._find(key)\<close> and then assign to the list
  \<open>s\<close> in place (\<open>s[:] = ...\<close>), which changes the tree at that node and
  nowhere else. \<open>at_found key f\<close> is the same walk, rebuilding the tree with
  the node reached replaced by \<open>f\<close> of it.
\<close>

fun at_found ::
  "'a::linorder pyobj \<Rightarrow> ('a node \<Rightarrow> 'a error + 'a node) \<Rightarrow> 'a node \<Rightarrow> 'a error + 'a node" where
  "at_found skey f Empty = Inl (not_found skey)"
| "at_found skey f (Node l h s) =
     (let node_key = slot_key s in
      if oval skey < oval node_key then
        (case at_found skey f l of Inl e \<Rightarrow> Inl e | Inr l' \<Rightarrow> Inr (Node l' h s))
      else if oval skey > oval node_key then
        (case at_found skey f h of Inl e \<Rightarrow> Inl e | Inr h' \<Rightarrow> Inr (Node l h' s))
      else f (Node l h s))"

text \<open>\<open>find\<close>: \<open>self._find(sort_key)[_VALUE]\<close>\<close>

definition find_value :: "'a::linorder pyobj \<Rightarrow> 'a bst \<Rightarrow> 'a error + 'a pyobj" where
  "find_value skey b =
     (case find_node skey (root b) of
        Inl e \<Rightarrow> Inl e
      | Inr Empty \<Rightarrow> Inl IndexError
      | Inr (Node l h s) \<Rightarrow> Inr (slot_value s))"

section \<open>Balance engine\<close>

definition balance_factor :: "'a::linorder pyobj \<Rightarrow> 'a bst \<Rightarrow> 'a error + int" where
  "balance_factor key b =
     (case find_node key (root b) of
        Inl e \<Rightarrow> Inl e
      | Inr Empty \<Rightarrow> Inl IndexError
      | Inr (Node s0 s1 s) \<Rightarrow>
          (let l = flatten (as_list s0); r = flatten (as_list s1)
           in Inr ((int (length l) - int (length r)) div 2)))"

text \<open>
  The new content of \<open>s\<close> in \<open>rotate_left\<close>: \<open>old_root = [s[0], s[1][0], s[2], s[-1]]\<close>,
  \<open>new_root = [old_root, s[1][1], s[1][2], s[1][-1]]\<close>. Indexing the empty list
  \<open>s[1]\<close> raises \<open>IndexError\<close>.
\<close>

fun rotate_left_node :: "'a node \<Rightarrow> 'a error + 'a node" where
  "rotate_left_node Empty = Inl IndexError"
| "rotate_left_node (Node s0 Empty s) = Inl IndexError"
| "rotate_left_node (Node s0 (Node s10 s11 s1) s) =
     (let old_root = Node s0 s10 (Slot4 (slot_value s) (slot_key s));
          new_root = Node old_root s11 (Slot4 (slot_value s1) (slot_key s1))
      in Inr new_root)"

fun rotate_right_node :: "'a node \<Rightarrow> 'a error + 'a node" where
  "rotate_right_node Empty = Inl IndexError"
| "rotate_right_node (Node Empty s1 s) = Inl IndexError"
| "rotate_right_node (Node (Node s00 s01 s0) s1 s) =
     (let old_root = Node s01 s1 (Slot4 (slot_value s) (slot_key s));
          new_root = Node s00 old_root (Slot4 (slot_value s0) (slot_key s0))
      in Inr new_root)"

text \<open>
  A method call returns its result, or the exception raised, together with the
  tree as the call leaves it.
\<close>

type_synonym ('a, 'r) outcome = "('a error + 'r) \<times> 'a bst"

definition rotate_left :: "'a::linorder pyobj \<Rightarrow> 'a bst \<Rightarrow> ('a, unit) outcome" where
  "rotate_left key b =
     (case at_found key rotate_left_node (root b) of
        Inl e \<Rightarrow> (Inl e, b)
      | Inr r \<Rightarrow> (Inr (), b\<lparr>root := r\<rparr>))"

definition rotate_right :: "'a::linorder pyobj \<Rightarrow> 'a bst \<Rightarrow> ('a, unit) outcome" where
  "rotate_right key b =
     (case at_found key rotate_right_node (root b) of
        Inl e \<Rightarrow> (Inl e, b)
      | Inr r \<Rightarrow> (Inr (), b\<lparr>root := r\<rparr>))"

definition balance :: "'a::linorder pyobj \<Rightarrow> 'a bst \<Rightarrow> ('a, unit) outcome" where
  "balance key b =
     (case balance_factor key b of
        Inl e \<Rightarrow> (Inl e, b)
      | Inr bf \<Rightarrow>
          if bf < -1 then rotate_left key b
          else if bf > 1 then rotate_right key b
          else (Inr (), b))"

section \<open>Deletion\<close>

text \<open>
  The successor loops of \<open>_pop_node\<close>. \<open>leftmost_out\<close> follows \<open>successor[_LO]\<close>
  while it is non-empty, and gives the slots \<open>successor[2:]\<close> of the node reached
  together with the subtree after \<open>successor[:] = successor[_HI]\<close>;
  \<open>rightmost_out\<close> is the mirror image.
\<close>

fun leftmost_out :: "'a node \<Rightarrow> 'a slots \<times> 'a node" where
  "leftmost_out (Node Empty h s) = (s, h)"
| "leftmost_out (Node (Node ll lh ls) h s) =
     (let (s', l') = leftmost_out (Node ll lh ls) in (s', Node l' h s))"

fun rightmost_out :: "'a node \<Rightarrow> 'a slots \<times> 'a node" where
  "rightmost_out (Node l Empty s) = (s, l)"
| "rightmost_out (Node l (Node hl hh hs) s) =
     (let (s', h') = rightmost_out (Node hl hh hs) in (s', Node l h' s))"

text \<open>The content of \<open>node\<close> after the edits of \<open>_pop_node\<close>, for balance factor \<open>bf\<close>.\<close>

fun pop_node :: "int \<Rightarrow> 'a node \<Rightarrow> 'a error + 'a node" where
  "pop_node bf Empty = Inl IndexError"
| "pop_node bf (Node Empty Empty s) = Inr Empty"
| "pop_node bf (Node Empty (Node hl hh hs) s) = Inr (Node hl hh hs)"
| "pop_node bf (Node (Node ll lh ls) Empty s) = Inr (Node ll lh ls)"
| "pop_node bf (Node (Node ll lh ls) (Node hl hh hs) s) =
     (if bf < 0 then
        (let (s', h') = leftmost_out (Node hl hh hs) in Inr (Node (Node ll lh ls) h' s'))
      else
        (let (s', l') = rightmost_out (Node ll lh ls) in Inr (Node l' (Node hl hh hs) s')))"

text \<open>
  \<open>pop\<close>: \<open>self._pop_node(self._find(sort_key))\<close>. \<open>_pop_node\<close> reads
  \<open>n = node[-1]\<close> and \<open>value = node[_VALUE]\<close>, asks for
  \<open>self.balance_factor(n)\<close>, edits the node and decrements \<open>_len\<close>.
\<close>

definition pop :: "'a::linorder pyobj \<Rightarrow> 'a bst \<Rightarrow> ('a, 'a pyobj \<times> 'a pyobj) outcome" where
  "pop skey b =
     (case find_node skey (root b) of
        Inl e \<Rightarrow> (Inl e, b)
      | Inr Empty \<Rightarrow> (Inl IndexError, b)
      | Inr (Node l h s) \<Rightarrow>
          (let n = slot_key s; value = slot_value s in
           case balance_factor n b of
             Inl e \<Rightarrow> (Inl e, b)
           | Inr bf \<Rightarrow>
               (case at_found skey (pop_node bf) (root b) of
                  Inl e \<Rightarrow> (Inl e, b)
                | Inr r \<Rightarrow> (Inr (value, n), b\<lparr>root := r, len := len b - 1\<rparr>))))"

section \<open>Insertion and root balancing\<close>

text \<open>
  The \<open>while node\<close> loop of \<open>insert\<close>: the walk to the first empty node, which
  receives \<open>new\<close>; \<open>stack\<close> collects the keys passed, the root's first. At a
  node whose key is a list the loop does \<open>continue\<close> with \<open>node\<close> as it is, so
  it runs for ever: the walk has no result, which is \<open>None\<close>.
\<close>

fun insert_walk ::
  "'a::linorder pyobj \<Rightarrow> 'a node \<Rightarrow> 'a node \<Rightarrow> ('a node \<times> 'a pyobj list) option" where
  "insert_walk skey new Empty = Some (new, [])"
| "insert_walk skey new (Node l h s) =
     (if isinstance_list (slot_key s) then None
      else
        (let d = slot_key s in
         if oval skey < oval d then
           (case insert_walk skey new l of
              None \<Rightarrow> None
            | Some (l', stack) \<Rightarrow> Some (Node l' h s, d # stack))
         else
           (case insert_walk skey new h of
              None \<Rightarrow> None
            | Some (h', stack) \<Rightarrow> Some (Node l h' s, d # stack))))"

text \<open>\<open>for i in stack[1:]: self.balance(i)\<close>, stopping at the first exception.\<close>

fun balance_each :: "'a::linorder pyobj list \<Rightarrow> 'a bst \<Rightarrow> ('a, unit) outcome" where
  "balance_each [] b = (Inr (), b)"
| "balance_each (i # rest) b =
     (case balance i b of
        (Inl e, b') \<Rightarrow> (Inl e, b')
      | (Inr u, b') \<Rightarrow> balance_each rest b')"

text \<open>
  \<open>insert\<close> and \<open>root_balance\<close> call each other, and \<open>root_balance\<close> calls itself.
  The first argument bounds the depth of these calls; \<open>None\<close> means that the
  call has not returned: the bound was reached, or the walk of \<open>insert\<close> runs
  for ever.
\<close>

fun insert_bst ::
    "nat \<Rightarrow> 'a::linorder pyobj \<Rightarrow> 'a pyobj option \<Rightarrow> 'a bst \<Rightarrow> ('a, unit) outcome option"
  and root_balance :: "nat \<Rightarrow> 'a bst \<Rightarrow> ('a, unit) outcome option" where
  "insert_bst 0 value key b = None"
| "insert_bst (Suc n) value key b =
     (let skey = (case key of None \<Rightarrow> value | Some k \<Rightarrow> k);
          new = (if skey = value then Node Empty Empty (Slot3 value)
                 else Node Empty Empty (Slot4 value skey))
      in case insert_walk skey new (root b) of
           None \<Rightarrow> None
         | Some (r, stack) \<Rightarrow>
             (let b1 = b\<lparr>root := r, len := len b + 1\<rparr>
              in if length stack > 2 \<and> bal b1 then
                   (case balance_each (drop 1 stack) b1 of
                      (Inl e, b2) \<Rightarrow> Some (Inl e, b2)
                    | (Inr u, b2) \<Rightarrow> root_balance n b2)
                 else Some (Inr (), b1)))"
| "root_balance 0 b = None"
| "root_balance (Suc n) b =
     (case root b of
        Empty \<Rightarrow> Some (Inl IndexError, b)
      | Node l h s \<Rightarrow>
          (let key = slot_key s in
           case balance_factor key b of
             Inl e \<Rightarrow> Some (Inl e, b)
           | Inr bf \<Rightarrow>
               (case (if bf < -2 then
                        (case pop key b of
                           (Inl e, b1) \<Rightarrow> Some (Inl e, b1)
                         | (Inr old, b1) \<Rightarrow>
                             (case insert_bst n (fst old) (Some (snd old)) b1 of
                                None \<Rightarrow> None
                              | Some (Inl e, b2) \<Rightarrow> Some (Inl e, b2)
                              | Some (Inr u, b2) \<Rightarrow>
                                  (case balance key b2 of
                                     (Inl e, b3) \<Rightarrow> Some (Inl e, b3)
                                   | (Inr u, b3) \<Rightarrow> root_balance n b3)))
                      else Some (Inr (), b)) of
                  None \<Rightarrow> None
                | Some (Inl e, b') \<Rightarrow> Some (Inl e, b')
                | Some (Inr u, b') \<Rightarrow>
                    if bf > 2 then
                      (case pop key b' of
                         (Inl e, b1) \<Rightarrow> Some (Inl e, b1)
                       | (Inr old, b1) \<Rightarrow>
                           (case insert_bst n (fst old) (Some (snd old)) b1 of
                              None \<Rightarrow> None
                            | Some (Inl e, b2) \<Rightarrow> Some (Inl e, b2)
                            | Some (Inr u, b2) \<Rightarrow>
                                (case balance key b2 of
                                   (Inl e, b3) \<Rightarrow> Some (Inl e, b3)
                                 | (Inr u, b3) \<Rightarrow> root_balance n b3)))
                    else Some (Inr (), b'))))"

section \<open>Update, traversal, persistence\<close>

text \<open>
  \<open>update_node_data\<close>. The tests \<open>if new_value:\<close> and \<open>if new_key:\<close> ask for the
  truth value of the argument: \<open>None\<close> (the default) is false, and so is any
  object whose content Python counts as false (\<open>0\<close>, the empty string);
  \<open>truth\<close> is that test on contents.
\<close>

definition update_node_data ::
  "('a \<Rightarrow> bool) \<Rightarrow> nat \<Rightarrow> 'a::linorder pyobj \<Rightarrow> 'a pyobj option \<Rightarrow> 'a pyobj option \<Rightarrow> 'a bst
     \<Rightarrow> ('a, unit) outcome option" where
  "update_node_data truth n skey new_value new_key b =
     (case pop skey b of
        (Inl e, b1) \<Rightarrow> Some (Inl e, b1)
      | (Inr old, b1) \<Rightarrow>
          (let value0 = fst old;
               key0 = snd old;
               value = (case new_value of
                          None \<Rightarrow> value0
                        | Some v \<Rightarrow> if truth (oval v) then v else value0);
               key = (case new_key of
                        None \<Rightarrow> key0
                      | Some k \<Rightarrow> if truth (oval k) then k else key0)
           in insert_bst n value (Some key) b1))"

text \<open>
  \<open>_iter(pre, post, value)\<close>, the generator behind \<open>keys\<close>, as the list of what it
  yields: \<open>node[_KEY]\<close>, or the pair \<open>node[_KEY], node[_VALUE]\<close> when \<open>value\<close>
  is set. \<open>LO\<close> and \<open>HI\<close> are the indices \<open>_LO\<close> and \<open>_HI\<close>. The head of
  \<open>stack\<close> is the node appended last. Only non-empty nodes are pushed, so the
  loop never indexes an empty one; \<open>child\<close> and \<open>yielded\<close> give \<open>Empty\<close> and
  no meaning to that case.
\<close>

datatype dir = LO | HI

fun child :: "dir \<Rightarrow> 'a node \<Rightarrow> 'a node" where
  "child d Empty = Empty"
| "child LO (Node l h s) = l"
| "child HI (Node l h s) = h"

fun yielded :: "bool \<Rightarrow> 'a node \<Rightarrow> 'a pyobj \<times> 'a pyobj option" where
  "yielded value (Node l h s) = (slot_key s, if value then Some (slot_value s) else None)"

fun iter_weight :: "'a node \<Rightarrow> nat" where
  "iter_weight Empty = 1"
| "iter_weight (Node l h s) = 2 + 2 * iter_weight l + 2 * iter_weight h"

function iter_loop ::
  "dir \<Rightarrow> dir \<Rightarrow> bool \<Rightarrow> 'a node list \<Rightarrow> 'a node \<Rightarrow> ('a pyobj \<times> 'a pyobj option) list" where
  "iter_loop pre post value stack node =
     (if stack \<noteq> [] \<or> node \<noteq> Empty then
        (if node \<noteq> Empty then iter_loop pre post value (node # stack) (child pre node)
         else (case stack of
                 [] \<Rightarrow> []
               | n # rest \<Rightarrow> yielded value n # iter_loop pre post value rest (child post n)))
      else [])"
  by pat_completeness auto

termination
proof (relation "measure (\<lambda>(pre, post, value, stack, node).
         iter_weight node + sum_list (map (\<lambda>n. Suc (iter_weight (child post n))) stack))",
       goal_cases)
  case 1
  show ?case by simp
next
  case (2 pre post val stack node)
  then have "Suc (iter_weight (child pre node) + iter_weight (child post node)) < iter_weight node"
    by (cases node; cases pre; cases post) auto
  then show ?case by simp
next
  case (3 pre post val stack node n rest)
  then show ?case by simp
qed

declare iter_loop.simps [simp del]

definition iter_nodes ::
  "dir \<Rightarrow> dir \<Rightarrow> bool \<Rightarrow> 'a bst \<Rightarrow> ('a pyobj \<times> 'a pyobj option) list" where
  "iter_nodes pre post value b = iter_loop pre post value [] (root b)"

definition keys :: "bool \<Rightarrow> bool \<Rightarrow> 'a bst \<Rightarrow> ('a pyobj \<times> 'a pyobj option) list" where
  "keys value reverse b =
     (if reverse then iter_nodes HI LO value b else iter_nodes LO HI value b)"

text \<open>\<open>__len__\<close>\<close>

definition len_bst :: "'a bst \<Rightarrow> int" where
  "len_bst b = len b"

text \<open>
  The files: what each name holds, and the names that \<open>open(file_name, 'wb')\<close>
  can open (the directory is there and may be written to). The byte encoding of
  \<open>pickle\<close> is not modelled: a file of \<open>save_tree\<close> holds the nested list that
  was pickled.
\<close>

record 'a disk =
  stored :: "string \<Rightarrow> 'a node option"
  can_write :: "string \<Rightarrow> bool"

text \<open>
  \<open>save_tree\<close>: \<open>open\<close> raises, and nothing is written, or \<open>self._root\<close> is
  pickled into the file. \<open>_len\<close> and \<open>bal\<close> are not written.
\<close>

definition save_tree :: "string \<Rightarrow> 'a bst \<Rightarrow> 'a disk \<Rightarrow> 'a error + 'a disk" where
  "save_tree file_name b fs =
     (if can_write fs file_name then
        (let data = root b in Inr (fs\<lparr>stored := (stored fs)(file_name \<mapsto> data)\<rparr>))
      else Inl (OSError file_name))"

text \<open>
  \<open>pickle.load\<close> builds the nested list anew: the lists and contents are those
  pickled, the objects are new ones. \<open>alloc\<close> gives the identity of each
  object built, in the order in which they are built, so that which of them are
  one object (a value and a key that were one object may be two after loading)
  is left to \<open>alloc\<close>.
\<close>

fun unpickle_obj :: "(nat \<Rightarrow> nat) \<Rightarrow> nat \<Rightarrow> 'a pyobj \<Rightarrow> 'a pyobj \<times> nat"
  and unpickle_objs :: "(nat \<Rightarrow> nat) \<Rightarrow> nat \<Rightarrow> 'a pyobj list \<Rightarrow> 'a pyobj list \<times> nat" where
  "unpickle_obj alloc j (Obj i c) = (Obj (alloc j) c, Suc j)"
| "unpickle_obj alloc j (TupleObj i c xs) =
     (let (ys, j') = unpickle_objs alloc (Suc j) xs in (TupleObj (alloc j) c ys, j'))"
| "unpickle_obj alloc j (ListObj i c xs) =
     (let (ys, j') = unpickle_objs alloc (Suc j) xs in (ListObj (alloc j) c ys, j'))"
| "unpickle_objs alloc j [] = ([], j)"
| "unpickle_objs alloc j (x # xs) =
     (let (y, j1) = unpickle_obj alloc j x;
          (ys, j2) = unpickle_objs alloc j1 xs
      in (y # ys, j2))"

fun unpickle_slots :: "(nat \<Rightarrow> nat) \<Rightarrow> nat \<Rightarrow> 'a slots \<Rightarrow> 'a slots \<times> nat" where
  "unpickle_slots alloc j (Slot3 v) =
     (let (v', j1) = unpickle_obj alloc j v in (Slot3 v', j1))"
| "unpickle_slots alloc j (Slot4 v k) =
     (let (v', j1) = unpickle_obj alloc j v;
          (k', j2) = unpickle_obj alloc j1 k
      in (Slot4 v' k', j2))"

fun unpickle :: "(nat \<Rightarrow> nat) \<Rightarrow> nat \<Rightarrow> 'a node \<Rightarrow> 'a node \<times> nat" where
  "unpickle alloc j Empty = (Empty, j)"
| "unpickle alloc j (Node l h s) =
     (let (l', j1) = unpickle alloc j l;
          (h', j2) = unpickle alloc j1 h;
          (s', j3) = unpickle_slots alloc j2 s
      in (Node l' h' s', j3))"

text \<open>
  \<open>load_saved_tree\<close>: opening a file that does not exist for reading raises
  \<open>FileNotFoundError\<close>; otherwise the result is what \<open>pickle.load\<close> builds.
\<close>

definition load_saved_tree :: "string \<Rightarrow> (nat \<Rightarrow> nat) \<Rightarrow> 'a disk \<Rightarrow> 'a error + 'a node" where
  "load_saved_tree file_name alloc fs =
     (case stored fs file_name of
        None \<Rightarrow> Inl (FileNotFoundError file_name)
      | Some data \<Rightarrow> Inr (fst (unpickle alloc 0 data)))"

text \<open>
  The branch \<open>r\<close> of \<open>instructions\<close>, the one place where a loaded list becomes
  a tree: \<open>bst._root = bst.load_saved_tree(file)\<close>.
\<close>

definition retrieve :: "string \<Rightarrow> (nat \<Rightarrow> nat) \<Rightarrow> 'a disk \<Rightarrow> 'a bst \<Rightarrow> ('a, unit) outcome" where
  "retrieve file_name alloc fs b =
     (case load_saved_tree file_name alloc fs of
        Inl e \<Rightarrow> (Inl e, b)
      | Inr data \<Rightarrow> (Inr (), b\<lparr>root := data\<rparr>))"

section \<open>Sequences of calls\<close>

text \<open>
  A caller's sequence of calls on one tree. The exception that \<open>_find\<close> raises
  for the key of a \<open>pop\<close> or \<open>update_node_data\<close> is caught and the sequence
  goes on; any other exception ends it. The result counts the \<open>insert\<close> calls
  and the \<open>pop\<close> calls that returned.
\<close>

datatype 'a call =
    Insert "'a pyobj" "'a pyobj option"
  | Pop "'a pyobj"
  | Update "'a pyobj" "'a pyobj option" "'a pyobj option"

fun run_calls ::
  "('a \<Rightarrow> bool) \<Rightarrow> nat \<Rightarrow> 'a::linorder call list \<Rightarrow> 'a bst \<times> nat \<times> nat
     \<Rightarrow> ('a error + 'a bst \<times> nat \<times> nat) option" where
  "run_calls truth fuel [] st = Some (Inr st)"
| "run_calls truth fuel (Insert value key # cs) (b, n, m) =
     (case insert_bst fuel value key b of
        None \<Rightarrow> None
      | Some (Inl e, b') \<Rightarrow> Some (Inl e)
      | Some (Inr u, b') \<Rightarrow> run_calls truth fuel cs (b', Suc n, m))"
| "run_calls truth fuel (Pop skey # cs) (b, n, m) =
     (case pop skey b of
        (Inl e, b') \<Rightarrow>
          if e = not_found skey then run_calls truth fuel cs (b', n, m) else Some (Inl e)
      | (Inr old, b') \<Rightarrow> run_calls truth fuel cs (b', n, Suc m))"
| "run_calls truth fuel (Update skey new_value new_key # cs) (b, n, m) =
     (case update_node_data truth fuel skey new_value new_key b of
        None \<Rightarrow> None
      | Some (Inl e, b') \<Rightarrow>
          if e = not_found skey then run_calls truth fuel cs (b', n, m) else Some (Inl e)
      | Some (Inr u, b') \<Rightarrow> run_calls truth fuel cs (b', n, m))"

section \<open>Vocabulary of the properties\<close>

subsection \<open>Keys in order\<close>

text \<open>The contents of the keys of a tree, low child first.\<close>

fun inorder :: "'a node \<Rightarrow> 'a list" where
  "inorder Empty = []"
| "inorder (Node l h s) = inorder l @ oval (slot_key s) # inorder h"

text \<open>
  The order of the keys as the specification words it, with \<open><\<close> on the low
  side (\<open>strict_order\<close>), and with \<open>\<le>\<close> on the low side (\<open>weak_order\<close>).
\<close>

fun strict_order :: "'a::linorder node \<Rightarrow> bool" where
  "strict_order Empty = True"
| "strict_order (Node l h s) =
     ((\<forall>x \<in> set (inorder l). x < oval (slot_key s)) \<and>
      (\<forall>x \<in> set (inorder h). oval (slot_key s) \<le> x) \<and>
      strict_order l \<and> strict_order h)"

fun weak_order :: "'a::linorder node \<Rightarrow> bool" where
  "weak_order Empty = True"
| "weak_order (Node l h s) =
     ((\<forall>x \<in> set (inorder l). x \<le> oval (slot_key s)) \<and>
      (\<forall>x \<in> set (inorder h). oval (slot_key s) \<le> x) \<and>
      weak_order l \<and> weak_order h)"

text \<open>What \<open>keys\<close> yields for a subtree, low child first.\<close>

fun inorder_items :: "bool \<Rightarrow> 'a node \<Rightarrow> ('a pyobj \<times> 'a pyobj option) list" where
  "inorder_items value Empty = []"
| "inorder_items value (Node l h s) =
     inorder_items value l @ yielded value (Node l h s) # inorder_items value h"

subsection \<open>Counting\<close>

text \<open>What \<open>flatten\<close> leaves of a nested list: its atoms, in order.\<close>

fun atoms :: "'a pyval \<Rightarrow> 'a pyval list" where
  "atoms (Atom a) = [Atom a]"
| "atoms (PyList xs) = concat (map atoms xs)"

text \<open>
  The items a value or key adds to a flattened list: itself, or, when it is a
  list, the items that its items add.
\<close>

fun leaves :: "'a pyobj \<Rightarrow> nat" where
  "leaves (Obj i c) = 1"
| "leaves (TupleObj i c xs) = 1"
| "leaves (ListObj i c xs) = sum_list (map leaves xs)"

text \<open>
  The items of a subtree: for each node those of its value and, for a four-slot
  node, those of its key.
\<close>

fun count_items :: "'a node \<Rightarrow> nat" where
  "count_items Empty = 0"
| "count_items (Node l h (Slot3 v)) = count_items l + count_items h + leaves v"
| "count_items (Node l h (Slot4 v k)) = count_items l + count_items h + leaves v + leaves k"

text \<open>Subtrees none of whose values and keys is a list.\<close>

fun no_list :: "'a node \<Rightarrow> bool" where
  "no_list Empty = True"
| "no_list (Node l h s) =
     (\<not> isinstance_list (slot_value s) \<and> \<not> isinstance_list (slot_key s) \<and>
      no_list l \<and> no_list h)"

text \<open>The number of nodes of a subtree, and trees all of whose nodes have one shape.\<close>

fun count_nodes :: "'a node \<Rightarrow> nat" where
  "count_nodes Empty = 0"
| "count_nodes (Node l h s) = count_nodes l + count_nodes h + 1"

fun three_slot :: "'a node \<Rightarrow> bool" where
  "three_slot Empty = True"
| "three_slot (Node l h (Slot3 v)) = (three_slot l \<and> three_slot h)"
| "three_slot (Node l h (Slot4 v k)) = False"

fun four_slot :: "'a node \<Rightarrow> bool" where
  "four_slot Empty = True"
| "four_slot (Node l h (Slot3 v)) = False"
| "four_slot (Node l h (Slot4 v k)) = (four_slot l \<and> four_slot h)"

text \<open>
  The balance factor in the words of the specification: the number of nodes of
  the low child minus that of the high child, halved.
\<close>

definition spec_balance_factor :: "'a::linorder pyobj \<Rightarrow> 'a bst \<Rightarrow> 'a error + int" where
  "spec_balance_factor key b =
     (case find_node key (root b) of
        Inl e \<Rightarrow> Inl e
      | Inr Empty \<Rightarrow> Inl IndexError
      | Inr (Node l h s) \<Rightarrow> Inr ((int (count_nodes l) - int (count_nodes h)) div 2))"

text \<open>The number of nodes on the longest path from the root to a leaf.\<close>

fun height :: "'a node \<Rightarrow> nat" where
  "height Empty = 0"
| "height (Node l h s) = Suc (max (height l) (height h))"

subsection \<open>Parts of root balancing and update\<close>

text \<open>
  The four statements under each of the two tests of \<open>root_balance\<close>:
  \<open>old = self.pop(key)\<close>, \<open>self.insert(old[-2], old[-1])\<close>, \<open>self.balance(key)\<close>,
  \<open>self.root_balance()\<close>.
\<close>

definition root_correction ::
  "nat \<Rightarrow> 'a::linorder pyobj \<Rightarrow> 'a bst \<Rightarrow> ('a, unit) outcome option" where
  "root_correction n key b =
     (case pop key b of
        (Inl e, b1) \<Rightarrow> Some (Inl e, b1)
      | (Inr old, b1) \<Rightarrow>
          (case insert_bst n (fst old) (Some (snd old)) b1 of
             None \<Rightarrow> None
           | Some (Inl e, b2) \<Rightarrow> Some (Inl e, b2)
           | Some (Inr u, b2) \<Rightarrow>
               (case balance key b2 of
                  (Inl e, b3) \<Rightarrow> Some (Inl e, b3)
                | (Inr u, b3) \<Rightarrow> root_balance n b3)))"

text \<open>
  The argument of \<open>update_node_data\<close> that is used: the new one when it is given
  and counts as true, the old one otherwise.
\<close>

definition chosen :: "('a \<Rightarrow> bool) \<Rightarrow> 'a pyobj option \<Rightarrow> 'a pyobj \<Rightarrow> 'a pyobj" where
  "chosen truth new old = (case new of None \<Rightarrow> old | Some x \<Rightarrow> if truth (oval x) then x else old)"

subsection \<open>What calls that return leave\<close>

text \<open>
  What a call of \<open>insert\<close> that returns leaves, and what a call of \<open>root_balance\<close>
  that returns leaves: no exception, keys in order, the new key added (or the
  keys as they were), the count one more (or as it was), the flag untouched.
\<close>

definition insert_post :: "'a::linorder pyobj \<Rightarrow> 'a pyobj option \<Rightarrow> 'a bst \<Rightarrow> ('a, unit) outcome \<Rightarrow> bool" where
  "insert_post value key b res =
     (case res of (r, b') \<Rightarrow>
        r = Inr () \<and> sorted (inorder (root b')) \<and>
        mset (inorder (root b')) =
          add_mset (oval (case key of None \<Rightarrow> value | Some k \<Rightarrow> k)) (mset (inorder (root b))) \<and>
        len b' = len b + 1 \<and> bal b' = bal b)"

definition balance_post :: "'a::linorder bst \<Rightarrow> ('a, unit) outcome \<Rightarrow> bool" where
  "balance_post b res =
     (case res of (r, b') \<Rightarrow>
        r = Inr () \<and> sorted (inorder (root b')) \<and>
        mset (inorder (root b')) = mset (inorder (root b)) \<and>
        len b' = len b \<and> bal b' = bal b)"

text \<open>The \<open>insert\<close> calls and the \<open>pop\<close> calls of a sequence.\<close>

fun is_insert :: "'a call \<Rightarrow> bool" where
  "is_insert (Insert value key) = True"
| "is_insert c = False"

fun is_pop :: "'a call \<Rightarrow> bool" where
  "is_pop (Pop skey) = True"
| "is_pop c = False"

text \<open>
  What a sequence of calls that returns leaves: no exception, every \<open>insert\<close>
  counted, the keys in order, and the count moved by the inserts less the pops
  that returned, in step with the number of nodes.
\<close>

definition run_post ::
  "'a::linorder call list \<Rightarrow> 'a bst \<times> nat \<times> nat \<Rightarrow> ('a error + 'a bst \<times> nat \<times> nat) \<Rightarrow> bool" where
  "run_post cs st res =
     (case st of (b, n, m) \<Rightarrow>
        \<exists>b' m'. res = Inr (b', n + length (filter is_insert cs), m + m') \<and>
          m' \<le> length (filter is_pop cs) \<and>
          sorted (inorder (root b')) \<and>
          len b' = len b + int (length (filter is_insert cs)) - int m' \<and>
          int (length (inorder (root b'))) - len b' = int (length (inorder (root b))) - len b \<and>
          bal b' = bal b)"

subsection \<open>Concrete trees and sequences of calls\<close>

text \<open>The tree with the keys 10 and 30, each its own value.\<close>

definition tree_10_30 :: "int bst" where
  "tree_10_30 = \<lparr>root = Node (Node Empty Empty (Slot3 (Obj 1 10))) Empty (Slot3 (Obj 3 30)),
     len = 2, bal = True\<rparr>"

text \<open>The tree after \<open>insert(20, 2)\<close> and \<open>insert(10, 1)\<close>.\<close>

definition keyed_2_1 :: "int bst" where
  "keyed_2_1 = \<lparr>root = Node (Node Empty Empty (Slot4 (Obj 3 10) (Obj 1 1))) Empty
                         (Slot4 (Obj 4 20) (Obj 2 2)),
     len = 2, bal = True\<rparr>"

text \<open>The chain 1, 2, 3, 4 of high children.\<close>

definition right_chain :: "int bst" where
  "right_chain =
     \<lparr>root = Node Empty (Node Empty (Node Empty (Node Empty Empty (Slot3 (Obj 4 4)))
                    (Slot3 (Obj 3 3))) (Slot3 (Obj 2 2))) (Slot3 (Obj 1 1)),
      len = 4, bal = True\<rparr>"

text \<open>
  \<open>insert(1)\<close>, ..., \<open>insert(5)\<close>, and the trees the calls build with and without
  balancing.
\<close>

definition ascending :: "int call list" where
  "ascending = [Insert (Obj 1 1) None, Insert (Obj 2 2) None, Insert (Obj 3 3) None,
                Insert (Obj 4 4) None, Insert (Obj 5 5) None]"

definition balanced_1_5 :: "int bst" where
  "balanced_1_5 =
     \<lparr>root = Node (Node (Node Empty Empty (Slot3 (Obj 1 1))) Empty (Slot4 (Obj 2 2) (Obj 2 2)))
                  (Node Empty (Node Empty Empty (Slot3 (Obj 5 5))) (Slot3 (Obj 4 4)))
                  (Slot4 (Obj 3 3) (Obj 3 3)),
      len = 5, bal = True\<rparr>"

definition chain_1_5 :: "int bst" where
  "chain_1_5 =
     \<lparr>root = Node Empty (Node Empty (Node Empty (Node Empty (Node Empty Empty (Slot3 (Obj 5 5)))
                    (Slot3 (Obj 4 4))) (Slot3 (Obj 3 3))) (Slot3 (Obj 2 2))) (Slot3 (Obj 1 1)),
      len = 5, bal = False\<rparr>"

text \<open>
  \<open>insert(7)\<close>, ..., \<open>insert(2)\<close>, the tree that the sixth of these calls hands to
  \<open>root_balance\<close>, and the tree that call leaves.
\<close>

definition descending :: "int call list" where
  "descending = [Insert (Obj 7 7) None, Insert (Obj 6 6) None, Insert (Obj 5 5) None,
                 Insert (Obj 4 4) None, Insert (Obj 3 3) None, Insert (Obj 2 2) None]"

definition left_heavy :: "int bst" where
  "left_heavy =
     \<lparr>root =
        Node (Node (Node (Node (Node Empty Empty (Slot3 (Obj 2 2))) Empty (Slot3 (Obj 3 3)))
                         Empty (Slot3 (Obj 4 4)))
                   (Node Empty Empty (Slot4 (Obj 6 6) (Obj 6 6)))
                   (Slot4 (Obj 5 5) (Obj 5 5)))
             Empty (Slot3 (Obj 7 7)),
      len = 6, bal = True\<rparr>"

definition rerooted :: "int bst" where
  "rerooted =
     \<lparr>root =
        Node (Node (Node (Node Empty Empty (Slot3 (Obj 2 2))) Empty (Slot3 (Obj 3 3)))
                   Empty (Slot3 (Obj 4 4)))
             (Node Empty (Node Empty Empty (Slot3 (Obj 7 7))) (Slot4 (Obj 6 6) (Obj 6 6)))
             (Slot4 (Obj 5 5) (Obj 5 5)),
      len = 6, bal = True\<rparr>"

text \<open>
  A sequence with a repeated key, a \<open>pop\<close> that succeeds, one that fails and an
  update of a key, and the tree it builds with balancing.
\<close>

definition mixed :: "int call list" where
  "mixed = [Insert (Obj 1 1) None, Insert (Obj 2 2) None, Insert (Obj 3 3) None,
            Insert (Obj 4 4) None, Insert (Obj 5 5) None, Insert (Obj 2 2) None,
            Pop (Obj 3 3), Pop (Obj 9 9), Update (Obj 4 4) None (Some (Obj 6 6))]"

definition mixed_tree :: "int bst" where
  "mixed_tree =
     \<lparr>root = Node (Node (Node Empty Empty (Slot3 (Obj 1 1))) Empty (Slot4 (Obj 2 2) (Obj 2 2)))
                  (Node Empty (Node Empty Empty (Slot4 (Obj 4 4) (Obj 6 6))) (Slot3 (Obj 5 5)))
                  (Slot3 (Obj 2 2)),
      len = 5, bal = True\<rparr>"

text \<open>Four times \<open>insert(7)\<close>, and the tree the calls build with balancing.\<close>

definition sevens :: "int call list" where
  "sevens = [Insert (Obj 7 7) None, Insert (Obj 7 7) None, Insert (Obj 7 7) None,
             Insert (Obj 7 7) None]"

definition four_sevens :: "int bst" where
  "four_sevens =
     \<lparr>root = Node (Node Empty Empty (Slot4 (Obj 7 7) (Obj 7 7)))
                  (Node Empty (Node Empty Empty (Slot3 (Obj 7 7))) (Slot3 (Obj 7 7)))
                  (Slot4 (Obj 7 7) (Obj 7 7)),
      len = 4, bal = True\<rparr>"








text \<open>
  Keys that are tuples of integers. A content is the list of the integers, in
  the order of lists, which is the order of Python's tuples; the integer \<open>n\<close>
  has the content \<open>[n]\<close>. The tree after \<open>insert((1, 1))\<close> and \<open>insert((3, 4))\<close>,
  and the tuples \<open>(1, 2)\<close> and \<open>(5,)\<close>, which are not among its keys.
\<close>

definition pair_1_1 :: "int list pyobj" where
  "pair_1_1 = TupleObj 11 [1, 1] [Obj 1 [1], Obj 1 [1]]"

definition pair_3_4 :: "int list pyobj" where
  "pair_3_4 = TupleObj 34 [3, 4] [Obj 3 [3], Obj 4 [4]]"

definition pair_1_2 :: "int list pyobj" where
  "pair_1_2 = TupleObj 12 [1, 2] [Obj 1 [1], Obj 2 [2]]"

definition single_5 :: "int list pyobj" where
  "single_5 = TupleObj 50 [5] [Obj 5 [5]]"

definition tuple_tree :: "int list bst" where
  "tuple_tree = \<lparr>root = Node Empty (Node Empty Empty (Slot3 pair_3_4)) (Slot3 pair_1_1),
     len = 2, bal = True\<rparr>"

text \<open>
  The tree after \<open>insert(7)\<close> and \<open>insert([8, 9], 5)\<close>, whose value is a list
  of two items.
\<close>

definition list_payload :: "int bst" where
  "list_payload =
     \<lparr>root = Node (Node Empty Empty (Slot4 (ListObj 10 0 [Obj 8 8, Obj 9 9]) (Obj 5 5))) Empty
                  (Slot3 (Obj 7 7)),
      len = 2, bal = True\<rparr>"

text \<open>
  Files: a disk with no file where every name can be written, the disk after
  \<open>save_tree()\<close> of \<open>balanced_1_5\<close>, and the tree that a new tree becomes when
  it takes what \<open>load_saved_tree()\<close> builds from that file with objects 100, 101, ...
\<close>

definition empty_disk :: "int disk" where
  "empty_disk = \<lparr>stored = (\<lambda>f. None), can_write = (\<lambda>f. True)\<rparr>"

definition disk_1_5 :: "int disk" where
  "disk_1_5 = empty_disk\<lparr>stored := (stored empty_disk)(''data/saved_tree.bst'' \<mapsto> root balanced_1_5)\<rparr>"

definition loaded_1_5 :: "int bst" where
  "loaded_1_5 =
     \<lparr>root = Node (Node (Node Empty Empty (Slot3 (Obj 100 1))) Empty (Slot4 (Obj 101 2) (Obj 102 2)))
                  (Node Empty (Node Empty Empty (Slot3 (Obj 103 5))) (Slot3 (Obj 104 4)))
                  (Slot4 (Obj 105 3) (Obj 106 3)),
      len = 0, bal = True\<rparr>"

section \<open>Lemmas\<close>

subsection \<open>flatten and the walk of find\<close>

lemma find_node_absent:
  "oval k \<notin> set (inorder t) \<Longrightarrow> find_node k t = Inl (not_found k)"
  by (induction t) (auto simp: Let_def)

lemma at_found_absent:
  "oval k \<notin> set (inorder t) \<Longrightarrow> at_found k f t = Inl (not_found k)"
  by (induction t) (auto simp: Let_def)

lemma flatten_loop_atoms:
  "i \<le> length items \<Longrightarrow>
   flatten_loop i items = take i items @ concat (map atoms (drop i items))"
proof (induction i items rule: flatten_loop.induct)
  case (1 i items)
  show ?case
  proof (cases "i < length items")
    case False
    with 1(3) show ?thesis by (subst flatten_loop.simps) simp
  next
    case True
    then have d: "drop i items = items ! i # drop (Suc i) items"
      using Cons_nth_drop_Suc [of i items] by simp
    show ?thesis
    proof (cases "items ! i")
      case (Atom a)
      have "flatten_loop i items = flatten_loop (Suc i) items"
        using True Atom by (subst flatten_loop.simps) simp
      also have "\<dots> = take (Suc i) items @ concat (map atoms (drop (Suc i) items))"
        using True 1(1) [OF True Atom] by simp
      finally show ?thesis using d Atom True by (simp add: take_Suc_conv_app_nth)
    next
      case (PyList xs)
      have "flatten_loop i items = flatten_loop i (take i items @ xs @ drop (Suc i) items)"
        using True PyList by (subst flatten_loop.simps) simp
      also have "\<dots> = take i items @ concat (map atoms (xs @ drop (Suc i) items))"
        using True 1(2) [OF True PyList] by simp
      finally show ?thesis using d PyList by simp
    qed
  qed
qed

lemma flatten_atoms: "flatten xs = concat (map atoms xs)"
  by (simp add: flatten_def flatten_loop_atoms)

lemma length_atoms_item: "length (atoms (item x)) = leaves x"
  by (induction x) (auto simp: length_concat comp_def intro: arg_cong [where f = sum_list])

lemma leaves_no_list: "\<not> isinstance_list x \<Longrightarrow> leaves x = 1"
  by (cases x) auto

lemma length_flatten_as_list: "length (flatten (as_list t)) = count_items t"
proof (induction t)
  case Empty
  show ?case by (simp add: flatten_atoms)
next
  case (Node l h s)
  then show ?case by (cases s) (simp_all add: flatten_atoms length_atoms_item)
qed

lemma count_items_0: "count_items t \<noteq> 0 \<Longrightarrow> t \<noteq> Empty"
  by auto

lemma find_node_Inr:
  "find_node k t = Inr n \<Longrightarrow> \<exists>l h s. n = Node l h s \<and> oval (slot_key s) = oval k"
  by (induction t) (auto simp: Let_def split: if_splits)

lemma find_node_present:
  "sorted (inorder t) \<Longrightarrow> oval k \<in> set (inorder t) \<Longrightarrow> \<exists>n. find_node k t = Inr n"
  by (induction t) (auto simp: Let_def sorted_append)

lemma at_found_Inl:
  "find_node k t = Inr n \<Longrightarrow> at_found k f t = Inl e \<Longrightarrow> f n = Inl e"
  by (induction t) (auto simp: Let_def split: if_splits sum.splits)

lemma at_found_Inr:
  "at_found k f t = Inr t' \<Longrightarrow> \<exists>n n'. find_node k t = Inr n \<and> f n = Inr n'"
  by (induction t arbitrary: t') (auto simp: Let_def split: if_splits sum.splits)

lemma at_found_inorder:
  assumes "\<And>n n'. f n = Inr n' \<Longrightarrow> inorder n' = inorder n"
  shows "at_found k f t = Inr t' \<Longrightarrow> inorder t' = inorder t"
  using assms by (induction t arbitrary: t') (auto simp: Let_def split: if_splits sum.splits)

lemma rotate_left_node_inorder: "rotate_left_node n = Inr n' \<Longrightarrow> inorder n' = inorder n"
  by (induction n rule: rotate_left_node.induct) (auto simp: Let_def)

lemma rotate_right_node_inorder: "rotate_right_node n = Inr n' \<Longrightarrow> inorder n' = inorder n"
  by (induction n rule: rotate_right_node.induct) (auto simp: Let_def)

lemma leftmost_out_inorder:
  "leftmost_out (Node l h s) = (s', t') \<Longrightarrow> inorder (Node l h s) = oval (slot_key s') # inorder t'"
  by (induction "Node l h s" arbitrary: l h s t' rule: leftmost_out.induct)
     (auto split: prod.splits)

lemma rightmost_out_inorder:
  "rightmost_out (Node l h s) = (s', t') \<Longrightarrow> inorder (Node l h s) = inorder t' @ [oval (slot_key s')]"
  by (induction "Node l h s" arbitrary: l h s t' rule: rightmost_out.induct)
     (auto split: prod.splits)

lemma pop_node_inorder:
  "pop_node bf (Node l h s) = Inr n' \<Longrightarrow> inorder n' = inorder l @ inorder h"
  by (cases l; cases h)
     (auto split: if_splits prod.splits dest!: leftmost_out_inorder rightmost_out_inorder)

lemma pop_node_Inr: "\<exists>n'. pop_node bf (Node l h s) = Inr n'"
  by (cases l; cases h) (auto split: prod.splits)

lemma at_found_pop_inorder:
  "at_found k (pop_node bf) t = Inr t' \<Longrightarrow>
   \<exists>xs ys. inorder t = xs @ oval k # ys \<and> inorder t' = xs @ ys"
proof (induction t arbitrary: t')
  case Empty
  then show ?case by simp
next
  case (Node l h s)
  consider (lt) "oval k < oval (slot_key s)" | (gt) "oval k > oval (slot_key s)"
    | (eq) "oval k = oval (slot_key s)"
    by (meson less_linear)
  then show ?case
  proof cases
    case lt
    with Node.prems obtain l' where l': "at_found k (pop_node bf) l = Inr l'" "t' = Node l' h s"
      by (auto simp: Let_def split: sum.splits)
    from Node.IH(1) [OF l'(1)] obtain xs ys where
      "inorder l = xs @ oval k # ys" "inorder l' = xs @ ys" by blast
    with l'(2) have "inorder (Node l h s) = xs @ oval k # (ys @ oval (slot_key s) # inorder h)
       \<and> inorder t' = xs @ (ys @ oval (slot_key s) # inorder h)" by simp
    then show ?thesis by blast
  next
    case gt
    then have "\<not> oval k < oval (slot_key s)" by simp
    with gt Node.prems obtain h' where h': "at_found k (pop_node bf) h = Inr h'" "t' = Node l h' s"
      by (auto simp: Let_def split: sum.splits)
    from Node.IH(2) [OF h'(1)] obtain xs ys where
      "inorder h = xs @ oval k # ys" "inorder h' = xs @ ys" by blast
    with h'(2) have "inorder (Node l h s) = (inorder l @ oval (slot_key s) # xs) @ oval k # ys
       \<and> inorder t' = (inorder l @ oval (slot_key s) # xs) @ ys" by simp
    then show ?thesis by blast
  next
    case eq
    with Node.prems have "pop_node bf (Node l h s) = Inr t'" by (simp add: Let_def)
    then have "inorder t' = inorder l @ inorder h" by (rule pop_node_inorder)
    with eq show ?thesis by auto
  qed
qed

lemma at_found_ok:
  "find_node k t = Inr n \<Longrightarrow> f n = Inr n' \<Longrightarrow> \<exists>t'. at_found k f t = Inr t'"
  by (induction t) (auto simp: Let_def split: if_splits sum.splits)

lemma three_slot_items: "three_slot t \<Longrightarrow> no_list t \<Longrightarrow> count_items t = count_nodes t"
  by (induction t rule: three_slot.induct) (auto simp: leaves_no_list)

lemma four_slot_items: "four_slot t \<Longrightarrow> no_list t \<Longrightarrow> count_items t = 2 * count_nodes t"
  by (induction t rule: four_slot.induct) (auto simp: leaves_no_list)

lemma balance_factor_found:
  "find_node key (root b) = Inr (Node l h s) \<Longrightarrow>
   balance_factor key b = Inr ((int (count_items l) - int (count_items h)) div 2)"
  by (simp add: balance_factor_def length_flatten_as_list)

subsection \<open>The node that pop edits\<close>

lemma at_found_fail:
  "find_node k t = Inr n \<Longrightarrow> f n = Inl e \<Longrightarrow> at_found k f t = Inl e"
  by (induction t) (auto simp: Let_def split: if_splits sum.splits)

lemma find_node_same_content:
  "oval k = oval k' \<Longrightarrow> find_node k t = Inr n \<Longrightarrow> find_node k' t = Inr n"
  by (induction t) (auto simp: Let_def split: if_splits)

lemma pop_found:
  assumes "find_node skey (root b) = Inr (Node l h s)"
  shows "\<exists>r. pop skey b = (Inr (slot_value s, slot_key s), b\<lparr>root := r, len := len b - 1\<rparr>) \<and>
     at_found skey (pop_node ((int (count_items l) - int (count_items h)) div 2)) (root b) = Inr r"
proof -
  let ?bf = "(int (count_items l) - int (count_items h)) div 2"
  from assms have "oval (slot_key s) = oval skey"
    by (auto dest: find_node_Inr)
  then have "find_node (slot_key s) (root b) = Inr (Node l h s)"
    using assms find_node_same_content [of skey "slot_key s"] by simp
  then have bf: "balance_factor (slot_key s) b = Inr ?bf"
    by (rule balance_factor_found)
  obtain n' where "pop_node ?bf (Node l h s) = Inr n'"
    using pop_node_Inr by blast
  with assms obtain r where r: "at_found skey (pop_node ?bf) (root b) = Inr r"
    using at_found_ok by blast
  with assms bf show ?thesis by (simp add: pop_def)
qed

subsection \<open>Order and count under insert, balance and pop\<close>

lemma insert_walk_props:
  assumes "sorted (inorder t)" and "inorder new = [oval k]"
  shows "insert_walk k new t = Some (t', stack) \<Longrightarrow>
         sorted (inorder t') \<and> mset (inorder t') = add_mset (oval k) (mset (inorder t)) \<and>
         oval ` set stack \<subseteq> set (inorder t)"
  using assms(1)
proof (induction t arbitrary: t' stack)
  case Empty
  then show ?case using assms(2) by simp
next
  case (Node l h s)
  show ?case
  proof (cases "oval k < oval (slot_key s)")
    case True
    with Node.prems(1) obtain l' st where w: "insert_walk k new l = Some (l', st)"
      and t': "t' = Node l' h s" and stack: "stack = slot_key s # st"
      by (auto simp: Let_def split: if_splits option.splits)
    from Node.prems(2) have sl: "sorted (inorder l)" by (simp add: sorted_append)
    from Node.IH(1) [OF w sl] have
      IH: "sorted (inorder l')" "mset (inorder l') = add_mset (oval k) (mset (inorder l))"
        "oval ` set st \<subseteq> set (inorder l)" by simp_all
    from IH(2) have "set (inorder l') = insert (oval k) (set (inorder l))"
      by (metis set_mset_add_mset_insert set_mset_mset)
    with True Node.prems(2) IH(1) have "sorted (inorder t')"
      unfolding t' by (auto simp: sorted_append)
    with IH(2,3) show ?thesis unfolding t' stack by auto
  next
    case False
    with Node.prems(1) obtain h' st where w: "insert_walk k new h = Some (h', st)"
      and t': "t' = Node l h' s" and stack: "stack = slot_key s # st"
      by (auto simp: Let_def split: if_splits option.splits)
    from Node.prems(2) have sl: "sorted (inorder h)" by (simp add: sorted_append)
    from Node.IH(2) [OF w sl] have
      IH: "sorted (inorder h')" "mset (inorder h') = add_mset (oval k) (mset (inorder h))"
        "oval ` set st \<subseteq> set (inorder h)" by simp_all
    from IH(2) have "set (inorder h') = insert (oval k) (set (inorder h))"
      by (metis set_mset_add_mset_insert set_mset_mset)
    with False Node.prems(2) IH(1) have "sorted (inorder t')"
      unfolding t' by (auto simp: sorted_append)
    with IH(2,3) show ?thesis unfolding t' stack by auto
  qed
qed

lemma rotate_left_found:
  assumes "find_node key (root b) = Inr (Node l h s)" and "h \<noteq> Empty"
  shows "\<exists>r. rotate_left key b = (Inr (), b\<lparr>root := r\<rparr>) \<and> inorder r = inorder (root b)"
proof -
  from assms(2) obtain n' where "rotate_left_node (Node l h s) = Inr n'"
    by (cases h) (auto simp: Let_def)
  with assms(1) obtain r where r: "at_found key rotate_left_node (root b) = Inr r"
    using at_found_ok by blast
  then have "inorder r = inorder (root b)"
    using at_found_inorder [of rotate_left_node] rotate_left_node_inorder by blast
  with r show ?thesis by (intro exI [of _ r]) (simp add: rotate_left_def)
qed

lemma rotate_right_found:
  assumes "find_node key (root b) = Inr (Node l h s)" and "l \<noteq> Empty"
  shows "\<exists>r. rotate_right key b = (Inr (), b\<lparr>root := r\<rparr>) \<and> inorder r = inorder (root b)"
proof -
  from assms(2) obtain n' where "rotate_right_node (Node l h s) = Inr n'"
    by (cases l) (auto simp: Let_def)
  with assms(1) obtain r where r: "at_found key rotate_right_node (root b) = Inr r"
    using at_found_ok by blast
  then have "inorder r = inorder (root b)"
    using at_found_inorder [of rotate_right_node] rotate_right_node_inorder by blast
  with r show ?thesis by (intro exI [of _ r]) (simp add: rotate_right_def)
qed

lemma balance_found:
  assumes "find_node key (root b) = Inr (Node l h s)"
  shows "\<exists>r. balance key b = (Inr (), b\<lparr>root := r\<rparr>) \<and> inorder r = inorder (root b)"
proof -
  let ?bf = "(int (count_items l) - int (count_items h)) div 2"
  have bf: "balance_factor key b = Inr ?bf"
    using assms by (rule balance_factor_found)
  consider (left) "?bf < - 1" | (right) "\<not> ?bf < - 1" "?bf > 1" | (none) "\<not> ?bf < - 1" "\<not> ?bf > 1"
    by blast
  then show ?thesis
  proof cases
    case left
    then have "count_items h \<noteq> 0" by linarith
    then have "h \<noteq> Empty" by (rule count_items_0)
    from rotate_left_found [OF assms this] bf left show ?thesis
      by (simp add: balance_def)
  next
    case right
    then have "count_items l \<noteq> 0" by linarith
    then have "l \<noteq> Empty" by (rule count_items_0)
    from rotate_right_found [OF assms this] bf right show ?thesis
      by (simp add: balance_def)
  next
    case none
    have "b\<lparr>root := root b\<rparr> = b" by simp
    moreover from bf none have "balance key b = (Inr (), b)" by (simp add: balance_def)
    ultimately show ?thesis by metis
  qed
qed

lemma balance_present:
  assumes "sorted (inorder (root b))" and "oval key \<in> set (inorder (root b))"
  shows "\<exists>r. balance key b = (Inr (), b\<lparr>root := r\<rparr>) \<and> inorder r = inorder (root b)"
proof -
  from find_node_present [OF assms] obtain n where n: "find_node key (root b) = Inr n" by blast
  then obtain l h s where "n = Node l h s" using find_node_Inr by blast
  with n show ?thesis using balance_found by blast
qed

lemma balance_each_present:
  "sorted (inorder (root b)) \<Longrightarrow> oval ` set ks \<subseteq> set (inorder (root b)) \<Longrightarrow>
   \<exists>r. balance_each ks b = (Inr (), b\<lparr>root := r\<rparr>) \<and> inorder r = inorder (root b)"
proof (induction ks arbitrary: b)
  case Nil
  have "b\<lparr>root := root b\<rparr> = b" by simp
  then show ?case by (metis balance_each.simps(1))
next
  case (Cons k ks)
  from Cons.prems have "oval k \<in> set (inorder (root b))" by simp
  from balance_present [OF Cons.prems(1) this] obtain r where
    r: "balance k b = (Inr (), b\<lparr>root := r\<rparr>)" "inorder r = inorder (root b)" by blast
  let ?b = "b\<lparr>root := r\<rparr>"
  from r(2) Cons.prems have "sorted (inorder (root ?b))" "oval ` set ks \<subseteq> set (inorder (root ?b))"
    by simp_all
  from Cons.IH [OF this] obtain r' where
    "balance_each ks ?b = (Inr (), ?b\<lparr>root := r'\<rparr>)" "inorder r' = inorder (root ?b)" by blast
  with r show ?case by (intro exI [of _ r']) simp
qed

lemma find_node_root: "find_node (slot_key s) (Node l h s) = Inr (Node l h s)"
  by (simp add: Let_def)

lemma inorder_Empty: "(inorder t = []) = (t = Empty)"
  by (cases t) auto

lemma pop_found_inorder:
  assumes "find_node skey (root b) = Inr (Node l h s)"
  shows "\<exists>r xs ys. pop skey b = (Inr (slot_value s, slot_key s), b\<lparr>root := r, len := len b - 1\<rparr>) \<and>
           inorder (root b) = xs @ oval skey # ys \<and> inorder r = xs @ ys"
proof -
  from pop_found [OF assms] obtain r where
    r: "pop skey b = (Inr (slot_value s, slot_key s), b\<lparr>root := r, len := len b - 1\<rparr>)"
       "at_found skey (pop_node ((int (count_items l) - int (count_items h)) div 2)) (root b) = Inr r"
    by blast
  from at_found_pop_inorder [OF r(2)] r(1) show ?thesis by blast
qed

lemma root_balance_Suc:
  "root b = Node l h s \<Longrightarrow>
   root_balance (Suc n) b =
     (case balance_factor (slot_key s) b of
        Inl e \<Rightarrow> Some (Inl e, b)
      | Inr bf \<Rightarrow>
          if bf < - 2 \<or> bf > 2 then root_correction n (slot_key s) b else Some (Inr (), b))"
  by (simp add: root_correction_def Let_def split: prod.splits sum.splits option.splits)

lemma root_correction_post:
  assumes IHi: "\<forall>value key (b::'a::linorder bst) res. sorted (inorder (root b)) \<longrightarrow>
                  insert_bst n value key b = Some res \<longrightarrow> insert_post value key b res"
    and IHr: "\<forall>(b::'a bst) res. sorted (inorder (root b)) \<longrightarrow> root b \<noteq> Empty \<longrightarrow>
                  root_balance n b = Some res \<longrightarrow> balance_post b res"
    and srt: "sorted (inorder (root (b::'a bst)))"
    and rt: "root b = Node l h s"
    and run: "root_correction n (slot_key s) b = Some res"
  shows "balance_post b res"
proof -
  let ?key = "slot_key s"
  have "find_node ?key (root b) = Inr (Node l h s)"
    unfolding rt by (rule find_node_root)
  from pop_found_inorder [OF this] obtain r1 xs ys where
    p: "pop ?key b = (Inr (slot_value s, ?key), b\<lparr>root := r1, len := len b - 1\<rparr>)"
    and io: "inorder (root b) = xs @ oval ?key # ys" "inorder r1 = xs @ ys"
    by blast
  let ?b1 = "b\<lparr>root := r1, len := len b - 1\<rparr>"
  have s1: "sorted (inorder (root ?b1))"
    using srt io by (simp add: sorted_append)
  obtain res2 where i: "insert_bst n (slot_value s) (Some ?key) ?b1 = Some res2"
    using run p by (auto simp: root_correction_def split: option.splits)
  obtain r2 b2 where res2: "res2 = (r2, b2)" by force
  from IHi s1 i have "insert_post (slot_value s) (Some ?key) ?b1 res2" by blast
  then have b2: "r2 = Inr ()" "sorted (inorder (root b2))"
    "mset (inorder (root b2)) = add_mset (oval ?key) (mset (inorder r1))"
    "len b2 = len b" "bal b2 = bal b"
    by (simp_all add: insert_post_def res2)
  from b2(3) io have m2: "mset (inorder (root b2)) = mset (inorder (root b))" by simp
  then have "set (inorder (root b2)) = set (inorder (root b))"
    by (metis set_mset_mset)
  with io have "oval ?key \<in> set (inorder (root b2))" by simp
  from balance_present [OF b2(2) this] obtain r3 where
    b3: "balance ?key b2 = (Inr (), b2\<lparr>root := r3\<rparr>)" "inorder r3 = inorder (root b2)"
    by blast
  let ?b3 = "b2\<lparr>root := r3\<rparr>"
  from run p i res2 b2(1) b3(1) have rb: "root_balance n ?b3 = Some res"
    by (simp add: root_correction_def)
  have "mset (inorder (root ?b3)) = mset (xs @ oval ?key # ys)"
    using b3(2) m2 io by simp
  then have "inorder (root ?b3) \<noteq> []" by auto
  then have ne: "root ?b3 \<noteq> Empty" by (simp add: inorder_Empty)
  have s3: "sorted (inorder (root ?b3))" using b3(2) b2(2) by simp
  from IHr s3 ne rb have "balance_post ?b3 res" by blast
  with b3(2) m2 b2(4,5) show ?thesis
    by (auto simp: balance_post_def)
qed

lemma insert_bst_Suc_post:
  assumes IHr: "\<forall>(b::'a::linorder bst) res. sorted (inorder (root b)) \<longrightarrow> root b \<noteq> Empty \<longrightarrow>
                  root_balance n b = Some res \<longrightarrow> balance_post b res"
    and srt: "sorted (inorder (root (b::'a bst)))"
    and run: "insert_bst (Suc n) value key b = Some res"
  shows "insert_post value key b res"
proof -
  let ?sk = "case key of None \<Rightarrow> value | Some k \<Rightarrow> k"
  let ?new = "if ?sk = value then Node Empty Empty (Slot3 value)
              else Node Empty Empty (Slot4 value ?sk)"
  from run obtain r stack where w: "insert_walk ?sk ?new (root b) = Some (r, stack)"
    by (cases "insert_walk ?sk ?new (root b)") (auto simp: Let_def)
  have "inorder ?new = [oval ?sk]" by simp
  from insert_walk_props [OF srt this w] have
    r: "sorted (inorder r)" "mset (inorder r) = add_mset (oval ?sk) (mset (inorder (root b)))"
       "oval ` set stack \<subseteq> set (inorder (root b))"
    by simp_all
  let ?b1 = "b\<lparr>root := r, len := len b + 1\<rparr>"
  show ?thesis
  proof (cases "length stack > 2 \<and> bal b")
    case False
    with run w have "res = (Inr (), ?b1)" by (auto simp: Let_def)
    with r show ?thesis by (simp add: insert_post_def)
  next
    case True
    have s1: "sorted (inorder (root ?b1))" using r(1) by simp
    have "set (inorder (root b)) \<subseteq> set (inorder r)"
      using r(2) by (metis set_mset_add_mset_insert set_mset_mset subset_insertI)
    with r(3) have "oval ` set (drop 1 stack) \<subseteq> set (inorder (root ?b1))"
      using set_drop_subset [of 1 stack] by auto
    from balance_each_present [OF s1 this] obtain r2 where
      b2: "balance_each (drop 1 stack) ?b1 = (Inr (), ?b1\<lparr>root := r2\<rparr>)"
          "inorder r2 = inorder (root ?b1)" by blast
    let ?b2 = "?b1\<lparr>root := r2\<rparr>"
    from run w True b2(1) have rb: "root_balance n ?b2 = Some res"
      by (simp add: Let_def)
    have "mset (inorder (root ?b2)) = add_mset (oval ?sk) (mset (inorder (root b)))"
      using b2(2) r(2) by simp
    then have "inorder (root ?b2) \<noteq> []" by auto
    then have ne: "root ?b2 \<noteq> Empty" by (simp add: inorder_Empty)
    have s2: "sorted (inorder (root ?b2))" using b2(2) r(1) by simp
    from IHr s2 ne rb have "balance_post ?b2 res" by blast
    with b2(2) r(2) show ?thesis
      by (auto simp: balance_post_def insert_post_def)
  qed
qed

lemma root_balance_Suc_post:
  assumes IHi: "\<forall>value key (b::'a::linorder bst) res. sorted (inorder (root b)) \<longrightarrow>
                  insert_bst n value key b = Some res \<longrightarrow> insert_post value key b res"
    and IHr: "\<forall>(b::'a bst) res. sorted (inorder (root b)) \<longrightarrow> root b \<noteq> Empty \<longrightarrow>
                  root_balance n b = Some res \<longrightarrow> balance_post b res"
    and srt: "sorted (inorder (root (b::'a bst)))"
    and ne: "root b \<noteq> Empty"
    and run: "root_balance (Suc n) b = Some res"
  shows "balance_post b res"
proof -
  from ne obtain l h s where rt: "root b = Node l h s" by (cases "root b") auto
  have "find_node (slot_key s) (root b) = Inr (Node l h s)"
    unfolding rt by (rule find_node_root)
  then have bf: "balance_factor (slot_key s) b =
      Inr ((int (count_items l) - int (count_items h)) div 2)"
    by (rule balance_factor_found)
  let ?bf = "(int (count_items l) - int (count_items h)) div 2"
  show ?thesis
  proof (cases "?bf < - 2 \<or> ?bf > 2")
    case True
    with bf have eq: "root_balance (Suc n) b = root_correction n (slot_key s) b"
      by (subst root_balance_Suc [OF rt]) simp
    from run have "root_correction n (slot_key s) b = Some res" unfolding eq .
    from root_correction_post [OF IHi IHr srt rt this] show ?thesis .
  next
    case False
    with bf have eq: "root_balance (Suc n) b = Some (Inr (), b)"
      by (subst root_balance_Suc [OF rt]) simp
    from run have "res = (Inr (), b)" unfolding eq by simp
    with srt show ?thesis by (simp add: balance_post_def)
  qed
qed

lemma insert_root_balance_post:
  "(\<forall>value key (b::'a::linorder bst) res. sorted (inorder (root b)) \<longrightarrow>
       insert_bst n value key b = Some res \<longrightarrow> insert_post value key b res) \<and>
   (\<forall>(b::'a bst) res. sorted (inorder (root b)) \<longrightarrow> root b \<noteq> Empty \<longrightarrow>
       root_balance n b = Some res \<longrightarrow> balance_post b res)"
proof (induction n)
  case 0
  show ?case by simp
next
  case (Suc n)
  then have IHi: "\<forall>value key (b::'a bst) res. sorted (inorder (root b)) \<longrightarrow>
                  insert_bst n value key b = Some res \<longrightarrow> insert_post value key b res"
    and IHr: "\<forall>(b::'a bst) res. sorted (inorder (root b)) \<longrightarrow> root b \<noteq> Empty \<longrightarrow>
                  root_balance n b = Some res \<longrightarrow> balance_post b res"
    by simp_all
  show ?case
  proof (intro conjI allI impI)
    fix v key and b :: "'a bst" and res
    assume "sorted (inorder (root b))" "insert_bst (Suc n) v key b = Some res"
    with IHr show "insert_post v key b res" by (rule insert_bst_Suc_post)
  next
    fix b :: "'a bst" and res
    assume "sorted (inorder (root b))" "root b \<noteq> Empty" "root_balance (Suc n) b = Some res"
    with IHi IHr show "balance_post b res" by (rule root_balance_Suc_post)
  qed
qed

lemma insert_bst_post:
  "sorted (inorder (root b)) \<Longrightarrow> insert_bst n value key b = Some res \<Longrightarrow>
   insert_post value key b res"
  using insert_root_balance_post [of n] by blast

lemma root_balance_post:
  "sorted (inorder (root b)) \<Longrightarrow> root b \<noteq> Empty \<Longrightarrow> root_balance n b = Some res \<Longrightarrow>
   balance_post b res"
  using insert_root_balance_post [of n] by blast

subsection \<open>Traversal\<close>

lemma weak_order_sorted: "weak_order t = sorted (inorder t)"
  by (induction t) (auto simp: sorted_append intro: order_trans)

lemma iter_loop_inorder:
  "iter_loop LO HI value stack node =
     inorder_items value node @
     concat (map (\<lambda>n. yielded value n # inorder_items value (child HI n)) stack)"
proof (induction LO HI "value" stack node rule: iter_loop.induct)
  case (1 val stack node)
  show ?case
  proof (cases node)
    case (Node l h s)
    with 1(1) show ?thesis by (subst iter_loop.simps) simp
  next
    case Empty
    show ?thesis
    proof (cases stack)
      case Nil
      with Empty show ?thesis by (subst iter_loop.simps) simp
    next
      case (Cons n rest)
      with Empty 1(2) show ?thesis by (subst iter_loop.simps) simp
    qed
  qed
qed

lemma keys_inorder_items: "keys value False b = inorder_items value (root b)"
  by (simp add: keys_def iter_nodes_def iter_loop_inorder)

lemma inorder_items_keys: "map (oval \<circ> fst) (inorder_items value t) = inorder t"
  by (induction t) auto

lemma keys_inorder: "map (oval \<circ> fst) (keys value False b) = inorder (root b)"
  by (simp add: keys_inorder_items inorder_items_keys)

subsection \<open>Sequences of calls\<close>

lemma find_node_Inl: "find_node k t = Inl e \<Longrightarrow> e = not_found k"
  by (induction t) (auto simp: Let_def split: if_splits)

lemma pop_cases:
  "pop skey b = (Inl (not_found skey), b) \<or>
   (\<exists>v k r xs ys. pop skey b = (Inr (v, k), b\<lparr>root := r, len := len b - 1\<rparr>) \<and>
        inorder (root b) = xs @ oval skey # ys \<and> inorder r = xs @ ys)"
proof (cases "find_node skey (root b)")
  case (Inl e)
  then have "e = not_found skey" by (rule find_node_Inl)
  with Inl show ?thesis by (simp add: pop_def)
next
  case (Inr n)
  then obtain l h s where "n = Node l h s" using find_node_Inr by blast
  with Inr have "find_node skey (root b) = Inr (Node l h s)" by simp
  from pop_found_inorder [OF this] show ?thesis by blast
qed

lemma run_post_Nil: "sorted (inorder (root b)) \<Longrightarrow> run_post [] (b, n, m) (Inr (b, n, m))"
  by (simp add: run_post_def)

lemma run_post_insert:
  assumes "insert_post value key b (Inr (), b1)" and "run_post cs (b1, Suc n, m) res"
  shows "run_post (Insert value key # cs) (b, n, m) res"
proof -
  from assms(1) have b1: "len b1 = len b + 1" "bal b1 = bal b"
    "mset (inorder (root b1)) =
       add_mset (oval (case key of None \<Rightarrow> value | Some k \<Rightarrow> k)) (mset (inorder (root b)))"
    by (simp_all add: insert_post_def)
  from b1(3) have "size (mset (inorder (root b1))) = Suc (size (mset (inorder (root b))))"
    by simp
  then have "length (inorder (root b1)) = Suc (length (inorder (root b)))" by simp
  with assms(2) b1(1,2) show ?thesis
    by (auto simp: run_post_def)
qed

lemma run_post_pop:
  assumes "inorder (root b) = xs @ x # ys" and "inorder r = xs @ ys"
    and "run_post cs (b\<lparr>root := r, len := len b - 1\<rparr>, n, Suc m) res"
  shows "run_post (Pop skey # cs) (b, n, m) res"
proof -
  from assms(3) obtain b' m' where
    r: "res = Inr (b', n + length (filter is_insert cs), Suc m + m')"
       "m' \<le> length (filter is_pop cs)" "sorted (inorder (root b'))"
       "len b' = len b - 1 + int (length (filter is_insert cs)) - int m'"
       "int (length (inorder (root b'))) - len b' = int (length (inorder r)) - (len b - 1)"
       "bal b' = bal b"
    by (auto simp: run_post_def)
  from r(1) have 1: "res = Inr (b', n + length (filter is_insert (Pop skey # cs)), m + Suc m')"
    by simp
  from r(2) have 2: "Suc m' \<le> length (filter is_pop (Pop skey # cs))" by simp
  from r(4) have 4: "len b' = len b + int (length (filter is_insert (Pop skey # cs))) - int (Suc m')"
    by simp
  from r(5) assms(1,2) have 5:
    "int (length (inorder (root b'))) - len b' = int (length (inorder (root b))) - len b"
    by simp
  from 1 2 r(3) 4 5 r(6) show ?thesis
    unfolding run_post_def by blast
qed

lemma run_post_same:
  assumes "\<not> is_insert c" and "len b2 = len b"
    and "length (inorder (root b2)) = length (inorder (root b))" and "bal b2 = bal b"
    and "run_post cs (b2, n, m) res"
  shows "run_post (c # cs) (b, n, m) res"
proof -
  from assms(5) obtain b' m' where
    r: "res = Inr (b', n + length (filter is_insert cs), m + m')"
       "m' \<le> length (filter is_pop cs)" "sorted (inorder (root b'))"
       "len b' = len b2 + int (length (filter is_insert cs)) - int m'"
       "int (length (inorder (root b'))) - len b' = int (length (inorder (root b2))) - len b2"
       "bal b' = bal b2"
    by (auto simp: run_post_def)
  from r(2) have "m' \<le> length (filter is_pop (c # cs))" by simp
  with r assms(1-4) show ?thesis
    unfolding run_post_def by auto
qed

lemma run_calls_post:
  "sorted (inorder (root b)) \<Longrightarrow> run_calls truth fuel cs (b, n, m) = Some res \<Longrightarrow>
   run_post cs (b, n, m) res"
proof (induction cs arbitrary: b n m)
  case Nil
  then show ?case by (auto simp: run_post_Nil)
next
  case (Cons c cs)
  show ?case
  proof (cases c)
    case (Insert v k)
    with Cons.prems(2) obtain r b1 where i: "insert_bst fuel v k b = Some (r, b1)"
      by (cases "insert_bst fuel v k b") auto
    from insert_bst_post [OF Cons.prems(1) i] have p: "insert_post v k b (r, b1)" .
    then have r: "r = Inr ()" and s1: "sorted (inorder (root b1))"
      by (simp_all add: insert_post_def)
    from Cons.prems(2) Insert i r have "run_calls truth fuel cs (b1, Suc n, m) = Some res"
      by simp
    from Cons.IH [OF s1 this] p r show ?thesis
      unfolding Insert by (simp add: run_post_insert)
  next
    case (Pop k)
    from pop_cases [of k b] show ?thesis
    proof (elim disjE exE conjE)
      assume f: "pop k b = (Inl (not_found k), b)"
      with Cons.prems(2) Pop have "run_calls truth fuel cs (b, n, m) = Some res" by simp
      from Cons.IH [OF Cons.prems(1) this] show ?thesis
        unfolding Pop by (simp add: run_post_same)
    next
      fix v k' r xs ys
      assume ok: "pop k b = (Inr (v, k'), b\<lparr>root := r, len := len b - 1\<rparr>)"
        and io: "inorder (root b) = xs @ oval k # ys" "inorder r = xs @ ys"
      let ?b1 = "b\<lparr>root := r, len := len b - 1\<rparr>"
      have s1: "sorted (inorder (root ?b1))"
        using Cons.prems(1) io by (simp add: sorted_append)
      from Cons.prems(2) Pop ok have "run_calls truth fuel cs (?b1, n, Suc m) = Some res"
        by simp
      from Cons.IH [OF s1 this] io show ?thesis
        unfolding Pop by (rule run_post_pop [rotated 2])
    qed
  next
    case (Update k nv nk)
    from pop_cases [of k b] show ?thesis
    proof (elim disjE exE conjE)
      assume f: "pop k b = (Inl (not_found k), b)"
      with Cons.prems(2) Update have "run_calls truth fuel cs (b, n, m) = Some res"
        by (simp add: update_node_data_def)
      from Cons.IH [OF Cons.prems(1) this] show ?thesis
        unfolding Update by (simp add: run_post_same)
    next
      fix v k' r xs ys
      assume ok: "pop k b = (Inr (v, k'), b\<lparr>root := r, len := len b - 1\<rparr>)"
        and io: "inorder (root b) = xs @ oval k # ys" "inorder r = xs @ ys"
      let ?b1 = "b\<lparr>root := r, len := len b - 1\<rparr>"
      let ?v = "chosen truth nv v" and ?k = "chosen truth nk k'"
      have s1: "sorted (inorder (root ?b1))"
        using Cons.prems(1) io by (simp add: sorted_append)
      have u: "update_node_data truth fuel k nv nk b = insert_bst fuel ?v (Some ?k) ?b1"
        using ok by (simp add: update_node_data_def chosen_def Let_def)
      with Cons.prems(2) Update obtain r2 b2 where
        i: "insert_bst fuel ?v (Some ?k) ?b1 = Some (r2, b2)"
        by (cases "insert_bst fuel ?v (Some ?k) ?b1") auto
      from insert_bst_post [OF s1 i] have p: "insert_post ?v (Some ?k) ?b1 (r2, b2)" .
      then have r2: "r2 = Inr ()" and s2: "sorted (inorder (root b2))"
        and l2: "len b2 = len b" and bl: "bal b2 = bal b"
        and m2: "mset (inorder (root b2)) = add_mset (oval ?k) (mset (inorder r))"
        by (simp_all add: insert_post_def)
      from m2 have "size (mset (inorder (root b2))) = Suc (size (mset (inorder r)))"
        by simp
      with io have n2: "length (inorder (root b2)) = length (inorder (root b))" by simp
      from Cons.prems(2) Update u i r2 have "run_calls truth fuel cs (b2, n, m) = Some res"
        by simp
      from Cons.IH [OF s2 this] l2 n2 bl show ?thesis
        unfolding Update by (simp add: run_post_same)
    qed
  qed
qed

subsection \<open>The node found for a key\<close>

lemma found_if_present:
  assumes "weak_order (root b)" and "oval key \<in> set (inorder (root b))"
  shows "\<exists>l h s. find_node key (root b) = Inr (Node l h s) \<and> oval (slot_key s) = oval key"
proof -
  from assms(1) have "sorted (inorder (root b))" by (simp add: weak_order_sorted)
  from find_node_present [OF this assms(2)] obtain n where "find_node key (root b) = Inr n"
    by blast
  then show ?thesis using find_node_Inr by blast
qed

lemma balance_factor_at_found:
  assumes "find_node key (root b) = Inr (Node l h s)"
  shows "\<exists>bf. balance_factor key b = Inr bf \<and>
           bf = (int (length (flatten (as_list l))) - int (length (flatten (as_list h)))) div 2 \<and>
           length (flatten (as_list l)) = count_items l \<and>
           length (flatten (as_list h)) = count_items h \<and>
           (no_list l \<and> no_list h \<and> three_slot l \<and> three_slot h \<longrightarrow>
              bf = (int (count_nodes l) - int (count_nodes h)) div 2) \<and>
           (no_list l \<and> no_list h \<and> four_slot l \<and> four_slot h \<longrightarrow>
              bf = int (count_nodes l) - int (count_nodes h)) \<and>
           (bf < 0) = (count_items l < count_items h) \<and>
           (bf > 0) = (count_items h + 2 \<le> count_items l)"
proof -
  let ?bf = "(int (count_items l) - int (count_items h)) div 2"
  have 1: "balance_factor key b = Inr ?bf"
    using assms by (rule balance_factor_found)
  have 2: "no_list l \<and> no_list h \<and> three_slot l \<and> three_slot h \<longrightarrow>
      ?bf = (int (count_nodes l) - int (count_nodes h)) div 2"
    by (simp add: three_slot_items)
  have 3: "no_list l \<and> no_list h \<and> four_slot l \<and> four_slot h \<longrightarrow>
      ?bf = int (count_nodes l) - int (count_nodes h)"
    by (auto simp: four_slot_items)
  have 4: "(?bf < 0) = (count_items l < count_items h)" by linarith
  have 5: "(?bf > 0) = (count_items h + 2 \<le> count_items l)" by linarith
  from 1 2 3 4 5 show ?thesis
    by (simp add: length_flatten_as_list)
qed

lemma rotation_at_found:
  assumes "find_node key (root b) = Inr (Node l h s)"
  shows "(\<exists>bf. balance_factor key b = Inr bf \<and> (bf < -1 \<longrightarrow> h \<noteq> Empty) \<and> (bf > 1 \<longrightarrow> l \<noteq> Empty)) \<and>
         (\<exists>b'. balance key b = (Inr (), b')) \<and>
         (h = Empty \<longrightarrow> rotate_left key b = (Inl IndexError, b)) \<and>
         (l = Empty \<longrightarrow> rotate_right key b = (Inl IndexError, b))"
proof -
  let ?bf = "(int (count_items l) - int (count_items h)) div 2"
  have bf: "balance_factor key b = Inr ?bf"
    using assms by (rule balance_factor_found)
  have hi: "h \<noteq> Empty" if "?bf < -1"
  proof
    assume "h = Empty"
    then have "count_items h = 0" by simp
    with that show False by simp
  qed
  have lo: "l \<noteq> Empty" if "?bf > 1"
  proof
    assume "l = Empty"
    then have "count_items l = 0" by simp
    with that show False by simp
  qed
  have left: "\<exists>b'. rotate_left key b = (Inr (), b')" if "?bf < -1"
  proof -
    from hi [OF that] obtain n' where "rotate_left_node (Node l h s) = Inr n'"
      by (cases h) (auto simp: Let_def)
    with assms obtain t' where "at_found key rotate_left_node (root b) = Inr t'"
      using at_found_ok by blast
    then show ?thesis by (simp add: rotate_left_def)
  qed
  have right: "\<exists>b'. rotate_right key b = (Inr (), b')" if "?bf > 1"
  proof -
    from lo [OF that] obtain n' where "rotate_right_node (Node l h s) = Inr n'"
      by (cases l) (auto simp: Let_def)
    with assms obtain t' where "at_found key rotate_right_node (root b) = Inr t'"
      using at_found_ok by blast
    then show ?thesis by (simp add: rotate_right_def)
  qed
  have bal: "\<exists>b'. balance key b = (Inr (), b')"
    using bf left right by (simp add: balance_def)
  have l_fail: "rotate_left key b = (Inl IndexError, b)" if "h = Empty"
  proof -
    from that have "rotate_left_node (Node l h s) = Inl IndexError" by simp
    with assms have "at_found key rotate_left_node (root b) = Inl IndexError"
      by (rule at_found_fail)
    then show ?thesis by (simp add: rotate_left_def)
  qed
  have r_fail: "rotate_right key b = (Inl IndexError, b)" if "l = Empty"
  proof -
    from that have "rotate_right_node (Node l h s) = Inl IndexError" by simp
    with assms have "at_found key rotate_right_node (root b) = Inl IndexError"
      by (rule at_found_fail)
    then show ?thesis by (simp add: rotate_right_def)
  qed
  from bf hi lo bal l_fail r_fail show ?thesis by blast
qed

lemma update_at_found:
  assumes "find_node skey (root b) = Inr (Node l h s)"
  shows "\<exists>b1. pop skey b = (Inr (slot_value s, slot_key s), b1) \<and>
     update_node_data truth n skey new_value new_key b =
       insert_bst n (chosen truth new_value (slot_value s))
         (Some (chosen truth new_key (slot_key s))) b1"
proof -
  from pop_found [OF assms] obtain b1 where
    p: "pop skey b = (Inr (slot_value s, slot_key s), b1)" by blast
  then have "update_node_data truth n skey new_value new_key b =
       insert_bst n (chosen truth new_value (slot_value s))
         (Some (chosen truth new_key (slot_key s))) b1"
    by (simp add: update_node_data_def chosen_def Let_def)
  with p show ?thesis by blast
qed

subsection \<open>A call of insert that does not return\<close>









subsection \<open>The bound on the depth of calls\<close>





subsection \<open>A key that is not in the tree\<close>

lemma pop_absent:
  "oval skey \<notin> set (inorder (root b)) \<Longrightarrow> pop skey b = (Inl (not_found skey), b)"
  by (simp add: pop_def find_node_absent)

lemma balance_engine_absent:
  "oval key \<notin> set (inorder (root b)) \<Longrightarrow>
   find_value key b = Inl (not_found key) \<and>
   balance_factor key b = Inl (not_found key) \<and>
   balance key b = (Inl (not_found key), b) \<and>
   rotate_left key b = (Inl (not_found key), b) \<and>
   rotate_right key b = (Inl (not_found key), b)"
  by (simp add: find_value_def balance_factor_def balance_def rotate_left_def rotate_right_def
        find_node_absent at_found_absent)

lemma not_found_tuple:
  assumes "length xs \<noteq> 1"
  shows "not_found (TupleObj i c xs) = TypeError"
proof (cases xs)
  case Nil
  then show ?thesis by simp
next
  case (Cons x ys)
  with assms show ?thesis by (cases ys) auto
qed

lemma not_found_other:
  "not_found (Obj i c) = KeyError (Obj i c)"
  "not_found (ListObj i c xs) = KeyError (ListObj i c xs)"
  "not_found (TupleObj i c [x]) = KeyError x"
  by simp_all

subsection \<open>The count after calls that return\<close>

lemma count_of_returning_calls:
  assumes "run_calls truth fuel cs (init balancing, 0, 0) = Some res"
  shows "\<exists>b n m. res = Inr (b, n, m) \<and> n = length (filter is_insert cs) \<and>
           m \<le> length (filter is_pop cs) \<and> len_bst b = int n - int m \<and>
           len_bst b = int (length (keys False False b))"
proof -
  have "sorted (inorder (root (init balancing :: 'a bst)))" by (simp add: init_def)
  from run_calls_post [OF this assms] obtain b m where
    b: "res = Inr (b, length (filter is_insert cs), m)" "m \<le> length (filter is_pop cs)"
       "len b = int (length (filter is_insert cs)) - int m"
       "int (length (inorder (root b))) - len b = 0"
    by (auto simp: run_post_def init_def)
  have "length (keys False False b) = length (inorder (root b))"
    using keys_inorder [of False b] by (metis length_map)
  with b show ?thesis
    by (auto simp: len_bst_def)
qed

lemma insert_count:
  assumes "weak_order (root b)" and "insert_bst fuel v k b = Some (r, b1)"
  shows "r = Inr () \<and> len_bst b1 = len_bst b + 1"
proof -
  from assms have "insert_post v k b (r, b1)"
    using insert_bst_post [of b fuel v k "(r, b1)"] by (simp add: weak_order_sorted)
  then show ?thesis
    by (simp add: insert_post_def len_bst_def)
qed

lemma pop_count: "pop skey b = (Inr old, b1) \<Longrightarrow> len_bst b1 = len_bst b - 1"
  using pop_cases [of skey b] by (auto simp: len_bst_def)


subsection \<open>Saving and loading\<close>

lemma unpickle_obj_oval: "oval (fst (unpickle_obj alloc j x)) = oval x"
  by (cases x) (auto split: prod.splits)

lemma unpickle_slots_key: "oval (slot_key (fst (unpickle_slots alloc j s))) = oval (slot_key s)"
proof (cases s)
  case (Slot3 v)
  then show ?thesis
    using unpickle_obj_oval [of alloc j v] by (auto split: prod.splits)
next
  case (Slot4 v k)
  obtain v' j1 where v: "unpickle_obj alloc j v = (v', j1)" by force
  with Slot4 show ?thesis
    using unpickle_obj_oval [of alloc j1 k] by (auto split: prod.splits)
qed

lemma unpickle_inorder: "inorder (fst (unpickle alloc j t)) = inorder t"
proof (induction t arbitrary: j)
  case Empty
  show ?case by simp
next
  case (Node l h s)
  obtain l' j1 where l: "unpickle alloc j l = (l', j1)" by force
  obtain h' j2 where h: "unpickle alloc j1 h = (h', j2)" by force
  obtain s' j3 where s: "unpickle_slots alloc j2 s = (s', j3)" by force
  from Node.IH(1) [of j] l have 1: "inorder l' = inorder l" by simp
  from Node.IH(2) [of j1] h have 2: "inorder h' = inorder h" by simp
  from unpickle_slots_key [of alloc j2 s] s have 3: "oval (slot_key s') = oval (slot_key s)"
    by simp
  from l h s 1 2 3 show ?case by simp
qed

lemma unpickle_count_nodes: "count_nodes (fst (unpickle alloc j t)) = count_nodes t"
proof (induction t arbitrary: j)
  case Empty
  show ?case by simp
next
  case (Node l h s)
  obtain l' j1 where l: "unpickle alloc j l = (l', j1)" by force
  obtain h' j2 where h: "unpickle alloc j1 h = (h', j2)" by force
  obtain s' j3 where s: "unpickle_slots alloc j2 s = (s', j3)" by force
  from Node.IH(1) [of j] l have 1: "count_nodes l' = count_nodes l" by simp
  from Node.IH(2) [of j1] h have 2: "count_nodes h' = count_nodes h" by simp
  from l h s 1 2 show ?case by simp
qed

lemma retrieve_after_save:
  assumes "can_write fs file_name"
  shows "\<exists>fs' t. save_tree file_name b fs = Inr fs' \<and>
           retrieve file_name alloc fs' b2 = (Inr (), b2\<lparr>root := t\<rparr>) \<and>
           map (oval \<circ> fst) (keys False False (b2\<lparr>root := t\<rparr>)) =
             map (oval \<circ> fst) (keys False False b) \<and>
           count_nodes t = count_nodes (root b) \<and>
           len_bst (b2\<lparr>root := t\<rparr>) = len_bst b2"
proof -
  let ?fs = "fs\<lparr>stored := (stored fs)(file_name \<mapsto> root b)\<rparr>"
  let ?t = "fst (unpickle alloc 0 (root b))"
  from assms have 1: "save_tree file_name b fs = Inr ?fs"
    by (simp add: save_tree_def)
  have 2: "retrieve file_name alloc ?fs b2 = (Inr (), b2\<lparr>root := ?t\<rparr>)"
    by (simp add: retrieve_def load_saved_tree_def)
  have 3: "map (oval \<circ> fst) (keys False False (b2\<lparr>root := ?t\<rparr>)) =
             map (oval \<circ> fst) (keys False False b)"
    by (simp add: keys_inorder unpickle_inorder)
  have 4: "count_nodes ?t = count_nodes (root b)"
    by (rule unpickle_count_nodes)
  have 5: "len_bst (b2\<lparr>root := ?t\<rparr>) = len_bst b2"
    by (simp add: len_bst_def)
  from 1 2 3 4 5 show ?thesis by blast
qed

lemma save_tree_fails:
  "\<not> can_write fs file_name \<Longrightarrow> save_tree file_name b fs = Inl (OSError file_name)"
  by (simp add: save_tree_def)

subsection \<open>A value that is a list\<close>

lemma list_payload_items:
  "length (flatten (as_list (Node Empty Empty
      (Slot4 (ListObj 10 0 [Obj 8 8, Obj 9 9]) (Obj 5 (5::int)))))) = 3 \<and>
   balance_factor (Obj 7 7) list_payload = Inr 1"
  by code_simp

subsection \<open>A key that is a list\<close>

lemma insert_below_list_key:
  "isinstance_list (slot_key s) \<Longrightarrow>
   insert_bst fuel value key (b\<lparr>root := Node l h s\<rparr>) = None"
  by (cases fuel) (simp_all add: Let_def)

section \<open>The claims\<close>

subsection \<open>Order and count\<close>

text \<open>
  C1, as amended. Every tree built from the empty tree by a sequence of
  \<open>insert\<close>, \<open>pop\<close> and \<open>update_node_data\<close> calls that return has its keys in
  non-decreasing order under \<open>keys()\<close>; equivalently, below every node the low
  child holds only keys less than or equal to the node's key and the high child
  only keys greater than or equal to it. No call of such a sequence ends in an
  exception other than the one \<open>_find\<close> raises for a missing key.
\<close>

theorem ordering_invariant:
  assumes "run_calls truth fuel cs (init balancing, 0, 0) = Some res"
  shows "\<exists>b n m. res = Inr (b, n, m) \<and> weak_order (root b) \<and>
           sorted (map (oval \<circ> fst) (keys False False b))"
proof -
  have "sorted (inorder (root (init balancing :: 'a bst)))" by (simp add: init_def)
  from run_calls_post [OF this assms] show ?thesis
    by (auto simp: run_post_def weak_order_sorted keys_inorder)
qed

theorem ordering_invariant_witness:
  "run_calls (\<lambda>x. x \<noteq> 0) 5 mixed (init True, 0, 0) = Some (Inr (mixed_tree, 6, 1)) \<and>
   weak_order (root mixed_tree) \<and>
   sorted (map (oval \<circ> fst) (keys False False mixed_tree))"
proof -
  have r: "run_calls (\<lambda>x. x \<noteq> 0) 5 mixed (init True, 0, 0) = Some (Inr (mixed_tree, 6, 1))"
    by code_simp
  from ordering_invariant [OF r] r show ?thesis by simp
qed

text \<open>
  After four calls \<open>insert(7)\<close> with balancing the keys are in order, and the low
  child of the root holds the key 7, which is not less than the root's key 7.
\<close>

theorem strict_order_counterexample:
  "run_calls (\<lambda>x. x \<noteq> 0) 2 sevens (init True, 0, 0) = Some (Inr (four_sevens, 4, 0)) \<and>
   map (oval \<circ> fst) (keys False False four_sevens) = [7, 7, 7, 7] \<and>
   \<not> strict_order (root four_sevens)"
  by code_simp


subsection \<open>A missing key\<close>

text \<open>
  C3. \<open>pop\<close> of a key that no node has returns the tree as it was, with the
  exception of the last line of \<open>_find\<close> (lemma \<open>pop_absent\<close>). That is the
  \<open>KeyError\<close> naming the key unless the key is a tuple (lemmas
  \<open>not_found_other\<close> and \<open>not_found_tuple\<close>). On the tree with the keys \<open>(1, 1)\<close> and \<open>(3, 4)\<close>,
  \<open>pop((1, 2))\<close> raises \<open>TypeError\<close>, and \<open>pop((5,))\<close> raises the \<open>KeyError\<close> that
  names 5, which is not the key.
\<close>

theorem pop_missing_tuple_key:
  "run_calls (\<lambda>x. x \<noteq> []) 1 [Insert pair_1_1 None, Insert pair_3_4 None] (init True, 0, 0) =
     Some (Inr (tuple_tree, 2, 0)) \<and>
   oval pair_1_2 \<notin> set (inorder (root tuple_tree)) \<and>
   pop pair_1_2 tuple_tree = (Inl TypeError, tuple_tree) \<and>
   oval single_5 \<notin> set (inorder (root tuple_tree)) \<and>
   pop single_5 tuple_tree = (Inl (KeyError (Obj 5 [5])), tuple_tree)"
  by code_simp

subsection \<open>The balance factor and root balancing\<close>

text \<open>
  C4, as amended. For a key of an ordered tree, \<open>balance_factor\<close> is, at the node
  that \<open>_find\<close> reaches for the key, the length of the flattened low child minus
  that of the flattened high child, halved with floor division. Flattening a
  child gives, for each node below, the node's value and, for a four-slot node,
  its key, where a value or key that is a list gives its own flattened items
  instead of itself (\<open>count_items\<close>). When no value or key below is a list,
  that is one item for each three-slot node and two for each four-slot node, so
  the result is the halved difference of the node counts when all nodes below
  are three-slot nodes, and the difference itself when all are four-slot nodes.
  It is negative exactly when the high child has more items, and positive
  exactly when the low child has at least two more.
\<close>

theorem balance_factor_counts_items:
  assumes "weak_order (root b)" and "oval key \<in> set (inorder (root b))"
  shows "\<exists>l h s bf. find_node key (root b) = Inr (Node l h s) \<and>
           oval (slot_key s) = oval key \<and>
           balance_factor key b = Inr bf \<and>
           bf = (int (length (flatten (as_list l))) - int (length (flatten (as_list h)))) div 2 \<and>
           length (flatten (as_list l)) = count_items l \<and>
           length (flatten (as_list h)) = count_items h \<and>
           (no_list l \<and> no_list h \<and> three_slot l \<and> three_slot h \<longrightarrow>
              bf = (int (count_nodes l) - int (count_nodes h)) div 2) \<and>
           (no_list l \<and> no_list h \<and> four_slot l \<and> four_slot h \<longrightarrow>
              bf = int (count_nodes l) - int (count_nodes h)) \<and>
           (bf < 0) = (count_items l < count_items h) \<and>
           (bf > 0) = (count_items h + 2 \<le> count_items l)"
proof -
  from found_if_present [OF assms] obtain l h s where
    f: "find_node key (root b) = Inr (Node l h s)" "oval (slot_key s) = oval key" by blast
  from balance_factor_at_found [OF f(1)] f show ?thesis by blast
qed

theorem balance_factor_counts_items_witness:
  "weak_order (root keyed_2_1) \<and> (2::int) \<in> set (inorder (root keyed_2_1)) \<and>
   find_node (Obj 2 2) (root keyed_2_1) =
     Inr (Node (Node Empty Empty (Slot4 (Obj 3 10) (Obj 1 1))) Empty (Slot4 (Obj 4 20) (Obj 2 2))) \<and>
   balance_factor (Obj 2 2) keyed_2_1 =
     Inr ((int (length (flatten (as_list (Node Empty Empty (Slot4 (Obj 3 10) (Obj 1 (1::int))))))) -
           int (length (flatten (as_list (Empty :: int node))))) div 2) \<and>
   balance_factor (Obj 2 2) keyed_2_1 = Inr 1"
proof -
  have w: "weak_order (root keyed_2_1)" by code_simp
  have m: "oval (Obj 2 (2::int)) \<in> set (inorder (root keyed_2_1))" by code_simp
  have f: "find_node (Obj 2 2) (root keyed_2_1) =
     Inr (Node (Node Empty Empty (Slot4 (Obj 3 10) (Obj 1 1))) Empty (Slot4 (Obj 4 20) (Obj 2 2)))"
    by (simp add: keyed_2_1_def)
  have v: "balance_factor (Obj 2 2) keyed_2_1 = Inr 1" by code_simp
  from balance_factor_counts_items [OF w m] f
  have "balance_factor (Obj 2 2) keyed_2_1 =
     Inr ((int (length (flatten (as_list (Node Empty Empty (Slot4 (Obj 3 10) (Obj 1 (1::int))))))) -
           int (length (flatten (as_list (Empty :: int node))))) div 2)"
    by auto
  with w m f v show ?thesis by simp
qed

text \<open>
  After \<open>insert(20, 2)\<close> and \<open>insert(10, 1)\<close> the root has one node below it, on
  the low side: halving the difference of the node counts gives 0, and
  \<open>balance_factor(2)\<close> is 1.
\<close>

theorem balance_factor_nodes_counterexample:
  "insert_bst 1 (Obj 4 (20::int)) (Some (Obj 2 2)) (init True) =
     Some (Inr (), \<lparr>root = Node Empty Empty (Slot4 (Obj 4 20) (Obj 2 2)), len = 1, bal = True\<rparr>) \<and>
   insert_bst 1 (Obj 3 10) (Some (Obj 1 1))
       \<lparr>root = Node Empty Empty (Slot4 (Obj 4 20) (Obj 2 2)), len = 1, bal = True\<rparr> =
     Some (Inr (), keyed_2_1) \<and>
   balance_factor (Obj 2 2) keyed_2_1 = Inr 1 \<and>
   spec_balance_factor (Obj 2 2) keyed_2_1 = Inr 0"
  by code_simp

text \<open>
  C5, as amended. The tests \<open>bf < -2\<close> and \<open>bf > 2\<close> of \<open>root_balance\<close> are two
  \<open>if\<close> statements in sequence, and the \<open>else\<close> that returns belongs to the
  second. A root with a balance factor above 2 is popped, inserted again and
  balanced, and \<open>root_balance\<close> runs again, as for one below -2; with a balance
  factor from -2 to 2 the call returns at once and the tree is as it was.
\<close>

theorem root_balance_branches:
  assumes "root b = Node l h s" and "balance_factor (slot_key s) b = Inr bf"
  shows "(- 2 \<le> bf \<and> bf \<le> 2 \<longrightarrow> root_balance (Suc n) b = Some (Inr (), b)) \<and>
         (bf > 2 \<longrightarrow> root_balance (Suc n) b = root_correction n (slot_key s) b) \<and>
         (bf < - 2 \<longrightarrow> root_balance (Suc n) b = root_correction n (slot_key s) b)"
proof (intro conjI impI)
  assume "- 2 \<le> bf \<and> bf \<le> 2"
  with assms show "root_balance (Suc n) b = Some (Inr (), b)" by simp
next
  assume "bf > 2"
  with assms show "root_balance (Suc n) b = root_correction n (slot_key s) b"
    by (simp add: root_correction_def Let_def)
next
  assume "bf < - 2"
  with assms show "root_balance (Suc n) b = root_correction n (slot_key s) b"
    by (simp add: root_correction_def Let_def split: prod.splits sum.splits option.splits)
qed

theorem root_balance_branches_witness:
  "root left_heavy = Node (Node (Node (Node (Node Empty Empty (Slot3 (Obj 2 2))) Empty (Slot3 (Obj 3 3)))
                         Empty (Slot3 (Obj 4 4)))
                   (Node Empty Empty (Slot4 (Obj 6 6) (Obj 6 6)))
                   (Slot4 (Obj 5 5) (Obj 5 5)))
             Empty (Slot3 (Obj 7 7)) \<and>
   balance_factor (Obj 7 7) left_heavy = Inr 3 \<and>
   root_balance (Suc 1) left_heavy = root_correction 1 (Obj 7 7) left_heavy \<and>
   balance_factor (Obj 5 5) rerooted = Inr 0 \<and>
   root_balance (Suc 0) rerooted = Some (Inr (), rerooted)"
proof -
  have r: "root left_heavy = Node (Node (Node (Node (Node Empty Empty (Slot3 (Obj 2 2))) Empty (Slot3 (Obj 3 3)))
                         Empty (Slot3 (Obj 4 4)))
                   (Node Empty Empty (Slot4 (Obj 6 6) (Obj 6 6)))
                   (Slot4 (Obj 5 5) (Obj 5 5)))
             Empty (Slot3 (Obj 7 7))"
    by (simp add: left_heavy_def)
  have bf: "balance_factor (slot_key (Slot3 (Obj 7 7))) left_heavy = Inr 3"
    by code_simp
  have r2: "root rerooted = Node (Node (Node (Node Empty Empty (Slot3 (Obj 2 2))) Empty (Slot3 (Obj 3 3)))
                   Empty (Slot3 (Obj 4 4)))
             (Node Empty (Node Empty Empty (Slot3 (Obj 7 7))) (Slot4 (Obj 6 6) (Obj 6 6)))
             (Slot4 (Obj 5 5) (Obj 5 5))"
    by (simp add: rerooted_def)
  have bf2: "balance_factor (slot_key (Slot4 (Obj 5 5) (Obj 5 5))) rerooted = Inr 0"
    by code_simp
  from root_balance_branches [OF r bf, of 1] root_balance_branches [OF r2 bf2, of 0] r bf bf2
  show ?thesis by simp
qed

text \<open>
  The root 7 of \<open>left_heavy\<close> has balance factor 3, and \<open>root_balance\<close> moves it
  below the new root 5; the calls \<open>insert(7)\<close>, ..., \<open>insert(2)\<close> on an empty
  balancing tree end with that tree.
\<close>

theorem root_balance_left_heavy_counterexample:
  "balance_factor (Obj 7 7) left_heavy = Inr 3 \<and>
   root_balance 2 left_heavy = Some (Inr (), rerooted) \<and>
   rerooted \<noteq> left_heavy \<and>
   run_calls (\<lambda>x. x \<noteq> 0) 3 descending (init True, 0, 0) = Some (Inr (rerooted, 6, 0))"
  by code_simp

subsection \<open>Persistence, update and a scenario\<close>

text \<open>
  C6. A tree that takes what \<open>load_saved_tree\<close> builds from a file of
  \<open>save_tree\<close> yields keys with the contents of the saved tree's, in order
  (lemma \<open>retrieve_after_save\<close>), but its count is the one it had: the file
  holds \<open>_root\<close> only, and the assignment to \<open>_root\<close> leaves \<open>_len\<close> as it is.
  A new tree that loads the file saved from the tree with the keys 1 to 5
  yields five keys and reports the count 0.
\<close>

theorem loaded_tree_keeps_its_count:
  "save_tree ''data/saved_tree.bst'' balanced_1_5 empty_disk = Inr disk_1_5 \<and>
   retrieve ''data/saved_tree.bst'' (\<lambda>j. 100 + j) disk_1_5 (init True) = (Inr (), loaded_1_5) \<and>
   map (oval \<circ> fst) (keys False False balanced_1_5) = [1, 2, 3, 4, 5] \<and>
   len_bst balanced_1_5 = 5 \<and>
   map (oval \<circ> fst) (keys False False loaded_1_5) = [1, 2, 3, 4, 5] \<and>
   len_bst loaded_1_5 = 0"
proof -
  have 1: "save_tree ''data/saved_tree.bst'' balanced_1_5 empty_disk = Inr disk_1_5"
    by (simp add: save_tree_def empty_disk_def disk_1_5_def)
  have 2: "retrieve ''data/saved_tree.bst'' (\<lambda>j. 100 + j) disk_1_5 (init True) = (Inr (), loaded_1_5)"
    by code_simp
  have 3: "map (oval \<circ> fst) (keys False False balanced_1_5) = [1, 2, 3, 4, 5]" by code_simp
  have 4: "len_bst balanced_1_5 = 5" by code_simp
  have 5: "map (oval \<circ> fst) (keys False False loaded_1_5) = [1, 2, 3, 4, 5]" by code_simp
  have 6: "len_bst loaded_1_5 = 0" by code_simp
  from 1 2 3 4 5 6 show ?thesis by blast
qed

text \<open>
  C7, as amended. For a key of an ordered tree, \<open>update_node_data\<close> is \<open>pop\<close>,
  which returns the value and key of the node that \<open>_find\<close> reaches, followed by
  \<open>insert\<close> of the value and key chosen: the new one when it is given and counts
  as true, the old one otherwise.
\<close>

theorem update_is_pop_then_insert:
  assumes "weak_order (root b)" and "oval skey \<in> set (inorder (root b))"
  shows "\<exists>l h s b1. find_node skey (root b) = Inr (Node l h s) \<and>
     oval (slot_key s) = oval skey \<and>
     pop skey b = (Inr (slot_value s, slot_key s), b1) \<and>
     update_node_data truth n skey new_value new_key b =
       insert_bst n (chosen truth new_value (slot_value s))
         (Some (chosen truth new_key (slot_key s))) b1"
proof -
  from found_if_present [OF assms] obtain l h s where
    f: "find_node skey (root b) = Inr (Node l h s)" "oval (slot_key s) = oval skey" by blast
  from update_at_found [OF f(1)] f show ?thesis by blast
qed

theorem update_is_pop_then_insert_witness:
  "weak_order (root keyed_2_1) \<and> (1::int) \<in> set (inorder (root keyed_2_1)) \<and>
   find_node (Obj 1 1) (root keyed_2_1) = Inr (Node Empty Empty (Slot4 (Obj 3 10) (Obj 1 1))) \<and>
   (\<exists>b1. pop (Obj 1 1) keyed_2_1 = (Inr (Obj 3 10, Obj 1 1), b1) \<and>
     update_node_data (\<lambda>x. x \<noteq> 0) 1 (Obj 1 1) (Some (Obj 9 5)) None keyed_2_1 =
       insert_bst 1 (Obj 9 5) (Some (Obj 1 1)) b1)"
proof -
  have w: "weak_order (root keyed_2_1)" by code_simp
  have m: "oval (Obj 1 (1::int)) \<in> set (inorder (root keyed_2_1))" by code_simp
  have f: "find_node (Obj 1 1) (root keyed_2_1) = Inr (Node Empty Empty (Slot4 (Obj 3 10) (Obj 1 1)))"
    by (simp add: keyed_2_1_def)
  from update_is_pop_then_insert [OF w m, of "\<lambda>x. x \<noteq> 0" 1 "Some (Obj 9 5)" None] f
  have "\<exists>b1. pop (Obj 1 1) keyed_2_1 = (Inr (Obj 3 10, Obj 1 1), b1) \<and>
     update_node_data (\<lambda>x. x \<noteq> 0) 1 (Obj 1 1) (Some (Obj 9 5)) None keyed_2_1 =
       insert_bst 1 (Obj 9 5) (Some (Obj 1 1)) b1"
    by (auto simp: chosen_def)
  with w m f show ?thesis by simp
qed

text \<open>
  With integers, \<open>update_node_data(1, new_value=0)\<close> keeps the old value 10 of
  the entry: the tree is the one before the call.
\<close>

theorem update_falsy_value_counterexample:
  "find_value (Obj 1 1) keyed_2_1 = Inr (Obj 3 10) \<and>
   update_node_data (\<lambda>x. x \<noteq> 0) 1 (Obj 1 1) (Some (Obj 9 0)) None keyed_2_1 =
     Some (Inr (), keyed_2_1)"
  by code_simp

text \<open>
  C8. The calls \<open>insert(1)\<close>, ..., \<open>insert(5)\<close> on an empty tree with balancing
  build a tree of height 3; without balancing they build the chain of height 5.
\<close>

theorem ascending_inserts_height:
  "run_calls (\<lambda>x. x \<noteq> 0) 3 ascending (init True, 0, 0) = Some (Inr (balanced_1_5, 5, 0)) \<and>
   height (root balanced_1_5) \<le> 3 \<and>
   run_calls (\<lambda>x. x \<noteq> 0) 3 ascending (init False, 0, 0) = Some (Inr (chain_1_5, 5, 0)) \<and>
   height (root chain_1_5) = 5"
  by code_simp

subsection \<open>Rotations and the balance engine on a missing key\<close>

text \<open>
  C9. For a key of an ordered tree and the node that \<open>_find\<close> reaches for it: a
  balance factor below -1 means its high child is not empty, one above 1 that
  its low child is not empty, so \<open>balance\<close> returns without an exception;
  \<open>rotate_left\<close> called when that node has an empty high child, and
  \<open>rotate_right\<close> when it has an empty low child, raise \<open>IndexError\<close> and leave
  the tree as it was.
\<close>

theorem rotation_children_present:
  assumes "weak_order (root b)" and "oval key \<in> set (inorder (root b))"
  shows "\<exists>l h s. find_node key (root b) = Inr (Node l h s) \<and>
           (\<exists>bf. balance_factor key b = Inr bf \<and> (bf < -1 \<longrightarrow> h \<noteq> Empty) \<and>
                 (bf > 1 \<longrightarrow> l \<noteq> Empty)) \<and>
           (\<exists>b'. balance key b = (Inr (), b')) \<and>
           (h = Empty \<longrightarrow> rotate_left key b = (Inl IndexError, b)) \<and>
           (l = Empty \<longrightarrow> rotate_right key b = (Inl IndexError, b))"
proof -
  from found_if_present [OF assms] obtain l h s where
    f: "find_node key (root b) = Inr (Node l h s)" by blast
  from rotation_at_found [OF f] f show ?thesis by blast
qed

theorem rotation_children_present_witness:
  "weak_order (root right_chain) \<and> (1::int) \<in> set (inorder (root right_chain)) \<and>
   find_node (Obj 1 1) (root right_chain) = Inr (root right_chain) \<and>
   balance_factor (Obj 1 1) right_chain = Inr (- 2) \<and>
   (\<exists>b'. balance (Obj 1 1) right_chain = (Inr (), b')) \<and>
   rotate_right (Obj 1 1) right_chain = (Inl IndexError, right_chain)"
proof -
  let ?h = "Node Empty (Node Empty (Node Empty Empty (Slot3 (Obj 4 (4::int))))
                    (Slot3 (Obj 3 3))) (Slot3 (Obj 2 2))"
  have w: "weak_order (root right_chain)" by code_simp
  have m: "oval (Obj 1 (1::int)) \<in> set (inorder (root right_chain))" by code_simp
  have f: "find_node (Obj 1 1) (root right_chain) = Inr (Node Empty ?h (Slot3 (Obj 1 1)))"
    by (simp add: right_chain_def)
  have bf: "balance_factor (Obj 1 1) right_chain = Inr (- 2)" by code_simp
  from rotation_children_present [OF w m] f
  have "(\<exists>b'. balance (Obj 1 1) right_chain = (Inr (), b')) \<and>
        rotate_right (Obj 1 1) right_chain = (Inl IndexError, right_chain)"
    by auto
  with w m f bf show ?thesis by (simp add: right_chain_def)
qed

text \<open>
  C10. \<open>find\<close>, \<open>balance_factor\<close>, \<open>balance\<close>, \<open>rotate_left\<close> and \<open>rotate_right\<close>
  of a key that no node has return the tree as it was, all with the exception
  of the last line of \<open>_find\<close> (lemma \<open>balance_engine_absent\<close>), which is not a
  \<open>KeyError\<close> naming the key when the key is a tuple. On the tree with the keys
  \<open>(1, 1)\<close> and \<open>(3, 4)\<close>, each of them raises \<open>TypeError\<close> for the key
  \<open>(1, 2)\<close>.
\<close>

theorem balance_engine_missing_tuple_key:
  "find_value pair_1_2 tuple_tree = Inl TypeError \<and>
   balance_factor pair_1_2 tuple_tree = Inl TypeError \<and>
   balance pair_1_2 tuple_tree = (Inl TypeError, tuple_tree) \<and>
   rotate_left pair_1_2 tuple_tree = (Inl TypeError, tuple_tree) \<and>
   rotate_right pair_1_2 tuple_tree = (Inl TypeError, tuple_tree) \<and>
   balance_factor single_5 tuple_tree = Inl (KeyError (Obj 5 [5]))"
  by code_simp

end
